theory Spec2Isabelle
  imports Complex_Main "HOL-Library.Word" "HOL-Library.Log_Nat" "HOL-Library.Multiset"
begin

section \<open>Go values shared by the import processor\<close>

text \<open>
  A Go byte slice and a Go string are both sequences of bytes; \<open>string\<close> (a list of
  8-bit characters) represents either.
\<close>

type_synonym bytes = string

text \<open>
  Go errors as values. \<open>DuplicateKeyError\<close> is \<open>storagebase.DuplicateKeyError\<close> (the
  only error type the code inspects), \<open>Err\<close> any other error named by its message,
  \<open>Wrap e msg\<close> is \<open>errors.Wrap(e, msg)\<close>, and \<open>Panic\<close> is a run-time panic (an
  index out of range, a call of a nil function), which no enclosing function recovers.
\<close>

datatype error =
    DuplicateKeyError bytes bytes
  | Err string
  | Wrap error string
  | Panic string

section \<open>Compression detection (read\_import\_base.go)\<close>

datatype IOFileFormat_Compression =
  IOFileFormat_Auto | IOFileFormat_None | IOFileFormat_Gzip | IOFileFormat_Bzip

text \<open>The part of \<open>net/url.URL\<close> that the code reads.\<close>

record URL =
  Path :: string

text \<open>\<open>strings.HasSuffix(s, suffix)\<close>.\<close>

definition HasSuffix :: "string \<Rightarrow> string \<Rightarrow> bool" where
  "HasSuffix s sfx \<longleftrightarrow>
     length sfx \<le> length s \<and> drop (length s - length sfx) s = sfx"

text \<open>
  \<open>guessCompressionFromName\<close>. The standard library's \<open>url.Parse\<close> is a parameter
  (\<open>Inl\<close> its error). The function calls itself on the parsed path, so it is a
  partial function: \<open>None\<close> stands for a recursion that never returns.
\<close>

partial_function (option) guessCompressionFromName ::
  "(string \<Rightarrow> error + URL) \<Rightarrow> string \<Rightarrow> IOFileFormat_Compression
     \<Rightarrow> IOFileFormat_Compression option" where
  "guessCompressionFromName url_Parse name hint =
     (if hint \<noteq> IOFileFormat_Auto then Some hint
      else if HasSuffix name ''.gz'' then Some IOFileFormat_Gzip
      else if HasSuffix name ''.bz2'' \<or> HasSuffix name ''.bz'' then Some IOFileFormat_Bzip
      else (case url_Parse name of
              Inr parsed \<Rightarrow>
                if Path parsed \<noteq> name
                then guessCompressionFromName url_Parse (Path parsed) hint
                else Some IOFileFormat_None
            | Inl err \<Rightarrow> Some IOFileFormat_None))"

section \<open>Floating-point numbers\<close>

text \<open>
  A finite IEEE 754 binary floating-point number is represented by the rational it
  denotes (the sign of a zero is not tracked). A format gives the number of significand
  bits and the exponent range of normal numbers.
\<close>

record format =
  precision :: nat
  emin :: int
  emax :: int

definition binary32 :: format where
  "binary32 = \<lparr>precision = 24, emin = - 126, emax = 127\<rparr>"

definition binary64 :: format where
  "binary64 = \<lparr>precision = 53, emin = - 1022, emax = 1023\<rparr>"

text \<open>Rounding a rational to the nearest integer, ties to the even one.\<close>

definition round_half_even :: "rat \<Rightarrow> int" where
  "round_half_even q =
     (let f = \<lfloor>q\<rfloor>; r = q - of_int f
      in if r < 1 / 2 then f else if 1 / 2 < r then f + 1
         else if even f then f else f + 1)"

text \<open>\<open>ilog2 q\<close> is the integer \<open>e\<close> with \<open>2^e \<le> q < 2^(e+1)\<close>, for positive \<open>q\<close>.\<close>

definition ilog2 :: "rat \<Rightarrow> int" where
  "ilog2 q =
     (let (a, b) = quotient_of q; d = bitlen a - bitlen b
      in if 2 powi d \<le> q then d else d - 1)"

text \<open>
  The exponent at which \<open>q\<close> is rounded (that of \<open>q\<close>, or \<open>emin\<close> in the subnormal
  range) and the spacing of the format's numbers there.
\<close>

definition expo :: "format \<Rightarrow> rat \<Rightarrow> int" where
  "expo fmt q = max (ilog2 \<bar>q\<bar>) (emin fmt)"

definition ulp :: "format \<Rightarrow> rat \<Rightarrow> rat" where
  "ulp fmt q = 2 powi (expo fmt q - (int (precision fmt) - 1))"

text \<open>Round to nearest, ties to even, with an unbounded exponent above.\<close>

definition round_to :: "format \<Rightarrow> rat \<Rightarrow> rat" where
  "round_to fmt q =
     (if q = 0 then 0
      else sgn q * of_int (round_half_even (\<bar>q\<bar> / ulp fmt q)) * ulp fmt q)"

datatype float = Fin rat | PInf | NInf | NaN

text \<open>The floating-point number a real result is delivered as: overflow gives an infinity.\<close>

definition fl :: "format \<Rightarrow> rat \<Rightarrow> float" where
  "fl fmt q =
     (let r = round_to fmt q
      in if 2 powi (emax fmt + 1) \<le> \<bar>r\<bar> then (if 0 < r then PInf else NInf) else Fin r)"

text \<open>Go's conversions \<open>float32(x)\<close> and \<open>float64(x)\<close> of an integer.\<close>

definition float_of_int :: "format \<Rightarrow> int \<Rightarrow> float" where
  "float_of_int fmt x = fl fmt (of_int x)"

text \<open>Division \<open>x / y\<close>; a zero divisor is taken as \<open>+0\<close>.\<close>

fun fdiv :: "format \<Rightarrow> float \<Rightarrow> float \<Rightarrow> float" where
  "fdiv fmt (Fin a) (Fin b) =
     (if b = 0 then (if a = 0 then NaN else if 0 < a then PInf else NInf)
      else fl fmt (a / b))"
| "fdiv fmt NaN y = NaN"
| "fdiv fmt x NaN = NaN"
| "fdiv fmt (Fin a) y = Fin 0"
| "fdiv fmt PInf (Fin b) = (if 0 \<le> b then PInf else NInf)"
| "fdiv fmt NInf (Fin b) = (if 0 \<le> b then NInf else PInf)"
| "fdiv fmt x y = NaN"

text \<open>The comparison \<open>x > y\<close>.\<close>

fun fgt :: "float \<Rightarrow> float \<Rightarrow> bool" where
  "fgt (Fin a) (Fin b) = (b < a)"
| "fgt NaN y = False"
| "fgt x NaN = False"
| "fgt PInf PInf = False"
| "fgt PInf y = True"
| "fgt x NInf = (x \<noteq> NInf)"
| "fgt x y = False"

section \<open>fileReader (read\_import\_base.go)\<close>

text \<open>
  \<open>byteCounter\<close> and \<open>fileReader\<close>; the wrapped readers are left out. The fields \<open>n\<close>
  and \<open>total\<close> are \<open>int64\<close>.
\<close>

record byteCounter =
  bc_n :: "64 word"

record fileReader =
  fr_total :: "64 word"
  fr_counter :: byteCounter

definition ReadFraction :: "fileReader \<Rightarrow> float" where
  "ReadFraction f =
     (if fr_total f = 0 then Fin 0
      else fdiv binary32 (float_of_int binary32 (sint (bc_n (fr_counter f))))
                         (float_of_int binary32 (sint (fr_total f))))"

section \<open>The sampler (import\_processor.go)\<close>

text \<open>\<open>roachpb.KeyValue\<close>, with \<open>Value.RawBytes\<close> as the value, and \<open>row.KVBatch\<close>.\<close>

record KeyValue =
  Key :: bytes
  RawBytes :: bytes

text \<open>
  A \<open>float32\<close> that is only stored and loaded is represented by its 32 bits, so
  \<open>math.Float32bits\<close> and \<open>math.Float32frombits\<close> leave the representation as it is.
\<close>

type_synonym float32 = "32 word"

definition Float32bits :: "float32 \<Rightarrow> 32 word" where
  "Float32bits x = x"

definition Float32frombits :: "32 word \<Rightarrow> float32" where
  "Float32frombits w = w"

record KVBatch =
  Source :: "32 word"
  LastRow :: "64 word"
  Progress :: float32
  KVs :: "KeyValue list"

text \<open>
  \<open>*rand.Rand\<close>: the sequence of numbers that successive calls of \<open>Float64\<close> return,
  and how many have been drawn.
\<close>

record Rand =
  draws :: "nat \<Rightarrow> rat"
  drawn :: nat

definition Float64 :: "Rand \<Rightarrow> rat \<times> Rand" where
  "Float64 g = (draws g (drawn g), g\<lparr>drawn := drawn g + 1\<rparr>)"

record sampleRate =
  rnd :: Rand
  sampleSize :: float

text \<open>
  \<open>sampleRate.sample\<close>: whether the KV is sampled, with the sampler after the draw.
  The sum of the two lengths is taken without overflow.
\<close>

definition sample :: "sampleRate \<Rightarrow> KeyValue \<Rightarrow> bool \<times> sampleRate" where
  "sample s kv =
     (let sz = float_of_int binary64 (int (length (Key kv) + length (RawBytes kv)));
          prob = fdiv binary64 sz (sampleSize s);
          (u, g) = Float64 (rnd s)
      in (fgt prob (Fin u), s\<lparr>rnd := g\<rparr>))"

text \<open>
  The job's persisted progress: \<open>roachpb.Span\<close> (\<open>StartKey\<close> is its field \<open>Key\<close>), the
  import details and the variants of \<open>Progress.Details\<close>.
\<close>

record Span =
  StartKey :: bytes
  EndKey :: bytes

record ImportProgress =
  SpanProgress :: "Span list"

datatype ProgressDetails = Progress_Import ImportProgress | Progress_OtherJob

record JobProgress =
  Details :: ProgressDetails

datatype ConsumerStatus = NeedMoreRows | DrainRequested | ConsumerClosed

text \<open>A row of two \<open>DBytes\<close> columns.\<close>

type_synonym EncDatumRow = "bytes \<times> bytes"

text \<open>
  The collaborators of \<open>emitKvs\<close>: the result of \<open>JobRegistry.LoadJob\<close> followed by
  \<open>job.Progress()\<close>, \<open>roachpb.Span.ContainsKey\<close>, \<open>keys.IsDescriptorKey\<close>, and the
  status that \<open>output.Push\<close> returns given the rows pushed so far, the new one last.
\<close>

record emit_deps =
  LoadJob :: "error + JobProgress"
  ContainsKey :: "Span \<Rightarrow> bytes \<Rightarrow> bool"
  IsDescriptorKey :: "bytes \<Rightarrow> bool"
  Push :: "EncDatumRow list \<Rightarrow> ConsumerStatus"

text \<open>
  Modelled from the spec: \<open>roachpb.SpanGroup\<close>, whose code is not among the source
  files. After \<open>Add(spans...)\<close>, \<open>Contains\<close> holds of a key that lies within any of
  the spans added; membership in one span is the parameter \<open>contains\<close>.
\<close>

definition SpanGroup_Contains :: "(Span \<Rightarrow> bytes \<Rightarrow> bool) \<Rightarrow> Span list \<Rightarrow> bytes \<Rightarrow> bool" where
  "SpanGroup_Contains contains completedSpans k = list_ex (\<lambda>sp. contains sp k) completedSpans"

text \<open>
  The state of \<open>emitKvs\<close>: the rows pushed to \<open>output\<close> and the sampling function
  \<open>fn\<close>, which stays nil when \<open>SampleSize\<close> is 0.
\<close>

record emit_state =
  pushed :: "EncDatumRow list"
  fn :: "sampleRate option"

definition push_row :: "emit_deps \<Rightarrow> emit_state \<Rightarrow> EncDatumRow \<Rightarrow> error option \<times> emit_state" where
  "push_row deps st row =
     (let st' = st\<lparr>pushed := pushed st @ [row]\<rparr>
      in if Push deps (pushed st') \<noteq> NeedMoreRows
         then (Some (Err ''unexpected closure of consumer''), st')
         else (None, st'))"

text \<open>The body of the inner loop of \<open>emitKvs\<close>, for one KV.\<close>

definition emit_kv ::
  "emit_deps \<Rightarrow> bool \<Rightarrow> Span list \<Rightarrow> emit_state \<Rightarrow> KeyValue \<Rightarrow> error option \<times> emit_state" where
  "emit_kv deps sampleAll completedSpans st kv =
     (if SpanGroup_Contains (ContainsKey deps) completedSpans (Key kv) then (None, st)
      else
        let rowRequired = sampleAll \<or> IsDescriptorKey deps (Key kv)
        in if rowRequired then push_row deps st (Key kv, RawBytes kv)
           else (case fn st of
                   None \<Rightarrow> (Some (Panic ''call of nil sampleFunc''), st)
                 | Some sr \<Rightarrow>
                     let (accept, sr') = sample sr kv; st' = st\<lparr>fn := Some sr'\<rparr>
                     in if accept then push_row deps st' (Key kv, []) else (None, st')))"

fun emit_kvs ::
  "emit_deps \<Rightarrow> bool \<Rightarrow> Span list \<Rightarrow> emit_state \<Rightarrow> KeyValue list \<Rightarrow> error option \<times> emit_state" where
  "emit_kvs deps sampleAll completedSpans st [] = (None, st)"
| "emit_kvs deps sampleAll completedSpans st (kv # kvs) =
     (case emit_kv deps sampleAll completedSpans st kv of
        (Some err, st') \<Rightarrow> (Some err, st')
      | (None, st') \<Rightarrow> emit_kvs deps sampleAll completedSpans st' kvs)"

fun emit_batches ::
  "emit_deps \<Rightarrow> bool \<Rightarrow> Span list \<Rightarrow> emit_state \<Rightarrow> KVBatch list \<Rightarrow> error option \<times> emit_state" where
  "emit_batches deps sampleAll completedSpans st [] = (None, st)"
| "emit_batches deps sampleAll completedSpans st (kvBatch # rest) =
     (case emit_kvs deps sampleAll completedSpans st (KVs kvBatch) of
        (Some err, st') \<Rightarrow> (Some err, st')
      | (None, st') \<Rightarrow> emit_batches deps sampleAll completedSpans st' rest)"

text \<open>
  \<open>emitKvs\<close>: \<open>SampleSize\<close> is \<open>spec.SampleSize\<close> (an \<open>int32\<close>), \<open>g\<close> the freshly
  seeded generator and \<open>kvCh\<close> the batches received until the channel is closed. The
  result is the returned error, if any, with the final state.
\<close>

definition emitKvs ::
  "emit_deps \<Rightarrow> 32 word \<Rightarrow> Rand \<Rightarrow> KVBatch list \<Rightarrow> error option \<times> emit_state" where
  "emitKvs deps SampleSize g kvCh =
     (let sampleAll = (SampleSize = 0);
          st = \<lparr>pushed = [],
                fn = (if SampleSize = 0 then None
                      else Some \<lparr>rnd = g, sampleSize = float_of_int binary64 (sint SampleSize)\<rparr>)\<rparr>
      in case LoadJob deps of
           Inl err \<Rightarrow> (Some err, st)
         | Inr progress \<Rightarrow>
             (case Details progress of
                Progress_Import details \<Rightarrow>
                  emit_batches deps sampleAll (SpanProgress details) st kvCh
              | Progress_OtherJob \<Rightarrow> (Some (Err ''unexpected progress type''), st)))"

section \<open>The dual-adder ingestor (import\_processor.go)\<close>

text \<open>
  The four progress slices of \<open>ingestKvs\<close>, each with one slot per input file.
\<close>

record progress_arrays =
  writtenRow :: "64 word list"
  writtenFraction :: "32 word list"
  pkFlushedRow :: "64 word list"
  idxFlushedRow :: "64 word list"

text \<open>
  The loop of the flush hooks,
  \<^verbatim>\<open>for _, i := range writtenRow { atomic.StoreUint64(&dst[i], writtenRow[i]) }\<close>:
  \<open>is\<close> are the values the \<open>range\<close> clause yields, each used as an index; an index
  out of range panics.
\<close>

fun storeRows :: "64 word list \<Rightarrow> 64 word list \<Rightarrow> 64 word list \<Rightarrow> error + 64 word list" where
  "storeRows [] src dst = Inr dst"
| "storeRows (i # is) src dst =
     (if unat i < length dst \<and> unat i < length src
      then storeRows is src (dst[unat i := src ! unat i])
      else Inl (Panic ''index out of range''))"

text \<open>
  The hook given to \<open>pkIndexAdder.SetOnFlush\<close>; \<open>indexAdderIsEmpty\<close> is what
  \<open>indexAdder.IsEmpty()\<close> returns when the hook runs.
\<close>

definition pkOnFlush :: "bool \<Rightarrow> progress_arrays \<Rightarrow> error + progress_arrays" where
  "pkOnFlush indexAdderIsEmpty arr =
     (case storeRows (writtenRow arr) (writtenRow arr) (pkFlushedRow arr) of
        Inl p \<Rightarrow> Inl p
      | Inr pk \<Rightarrow>
          let arr' = arr\<lparr>pkFlushedRow := pk\<rparr>
          in if indexAdderIsEmpty
             then (case storeRows (writtenRow arr') (writtenRow arr') (idxFlushedRow arr') of
                     Inl p \<Rightarrow> Inl p
                   | Inr idx \<Rightarrow> Inr (arr'\<lparr>idxFlushedRow := idx\<rparr>))
             else Inr arr')"

text \<open>The hook given to \<open>indexAdder.SetOnFlush\<close>.\<close>

definition idxOnFlush :: "progress_arrays \<Rightarrow> error + progress_arrays" where
  "idxOnFlush arr =
     (case storeRows (writtenRow arr) (writtenRow arr) (idxFlushedRow arr) of
        Inl p \<Rightarrow> Inl p
      | Inr idx \<Rightarrow> Inr (arr\<lparr>idxFlushedRow := idx\<rparr>))"

text \<open>
  \<open>offsets\<close>, built by the loop over \<open>spec.Uri\<close>: \<open>files\<close> are the keys of that Go map
  in the order the loop visits them. A lookup of a file that is not in the map gives 0.
\<close>

fun mk_offsets :: "32 word list \<Rightarrow> nat \<Rightarrow> (32 word \<times> nat) list" where
  "mk_offsets [] offset = []"
| "mk_offsets (i # files) offset = (i, offset) # mk_offsets files (offset + 1)"

definition offset_of :: "(32 word \<times> nat) list \<Rightarrow> 32 word \<Rightarrow> nat" where
  "offset_of offsets file = (case map_of offsets file of None \<Rightarrow> 0 | Some offset \<Rightarrow> offset)"

text \<open>
  The progress record that the reporter task sends on a tick, built from the slices as
  they are when it loads them.
\<close>

record BulkProcessorProgress =
  CompletedRow :: "32 word \<rightharpoonup> 64 word"
  CompletedFraction :: "32 word \<rightharpoonup> float32"

fun report_files ::
  "(32 word \<times> nat) list \<Rightarrow> progress_arrays \<Rightarrow> BulkProcessorProgress
     \<Rightarrow> error + BulkProcessorProgress" where
  "report_files [] arr prog = Inr prog"
| "report_files ((file, offset) # rest) arr prog =
     (if offset < length (pkFlushedRow arr) \<and> offset < length (idxFlushedRow arr)
         \<and> offset < length (writtenFraction arr)
      then
        let pk = pkFlushedRow arr ! offset;
            idx = idxFlushedRow arr ! offset;
            prog' = prog\<lparr>CompletedRow := (CompletedRow prog)(file \<mapsto> (if idx > pk then pk else idx))\<rparr>;
            prog'' = prog'\<lparr>CompletedFraction :=
                       (CompletedFraction prog')(file \<mapsto> Float32frombits (writtenFraction arr ! offset))\<rparr>
        in report_files rest arr prog''
      else Inl (Panic ''index out of range''))"

definition report :: "(32 word \<times> nat) list \<Rightarrow> progress_arrays \<Rightarrow> error + BulkProcessorProgress" where
  "report offsets arr =
     report_files offsets arr \<lparr>CompletedRow = Map.empty, CompletedFraction = Map.empty\<rparr>"

text \<open>
  Modelled from the spec: \<open>roachpb.BulkOpSummary\<close> and its method \<open>Add\<close>, whose code
  is not among the source files. A summary is reduced to its \<open>DataSize\<close>, and adding
  two summaries adds their sizes.
\<close>

record BulkOpSummary =
  DataSize :: int

definition BulkOpSummary_Add :: "BulkOpSummary \<Rightarrow> BulkOpSummary \<Rightarrow> BulkOpSummary" where
  "BulkOpSummary_Add a b = \<lparr>DataSize = DataSize a + DataSize b\<rparr>"

text \<open>
  \<open>storagebase.BulkAdder\<close>, an interface implemented outside these files: an adder is
  a state of some type \<open>'a\<close> with its operations. \<open>Add\<close> and \<open>Flush\<close> return the new
  state, whether the adder flushed (and so ran its on-flush hook) during the call, and
  the error returned.
\<close>

record 'a BulkAdder =
  Add :: "'a \<Rightarrow> bytes \<Rightarrow> bytes \<Rightarrow> 'a \<times> bool \<times> error option"
  Flush :: "'a \<Rightarrow> 'a \<times> bool \<times> error option"
  IsEmpty :: "'a \<Rightarrow> bool"
  GetSummary :: "'a \<Rightarrow> BulkOpSummary"

text \<open>
  The collaborators of \<open>ingestKvs\<close>: what the two calls of \<open>flowCtx.Cfg.BulkAdder\<close>
  return, the operations of the two adders, and \<open>sqlbase.DecodeTableIDIndexID\<close>
  (giving the table ID and the index ID).
\<close>

record ('a, 'b) ingest_deps =
  NewPkAdder :: "error + 'a"
  NewIndexAdder :: "error + 'b"
  pkOps :: "'a BulkAdder"
  idxOps :: "'b BulkAdder"
  DecodeTableIDIndexID :: "bytes \<Rightarrow> error + 32 word \<times> 32 word"

datatype adder_id = PkAdder | IdxAdder

text \<open>
  What a run of \<open>ingestKvs\<close> does that others can see, in order: a call of an adder's
  \<open>Add\<close>, a non-nil error returned by an adder's \<open>Add\<close> or \<open>Flush\<close>, and the progress
  slices after a step that stored into them (the states the reporter task can load).
\<close>

datatype event =
    AddCalled adder_id KeyValue
  | AdderFailed adder_id error
  | Stored progress_arrays

record ('a, 'b) ingest_state =
  pkIndexAdder :: 'a
  indexAdder :: 'b
  arrays :: progress_arrays
  events :: "event list"

text \<open>
  The handling of an error of \<open>Add\<close> or \<open>Flush\<close>: a \<open>DuplicateKeyError\<close> is wrapped
  with the message, any other error is returned as it is.
\<close>

definition wrapDuplicate :: "error \<Rightarrow> string \<Rightarrow> error" where
  "wrapDuplicate err msg =
     (case err of DuplicateKeyError k v \<Rightarrow> Wrap err msg | _ \<Rightarrow> err)"

definition duplicate_msg :: "adder_id \<Rightarrow> string" where
  "duplicate_msg who =
     (case who of PkAdder \<Rightarrow> ''duplicate key in primary index''
                | IdxAdder \<Rightarrow> ''duplicate key in index'')"

definition onFlush ::
  "('a, 'b) ingest_deps \<Rightarrow> adder_id \<Rightarrow> ('a, 'b) ingest_state \<Rightarrow> error + progress_arrays" where
  "onFlush deps who st =
     (case who of
        PkAdder \<Rightarrow> pkOnFlush (IsEmpty (idxOps deps) (indexAdder st)) (arrays st)
      | IdxAdder \<Rightarrow> idxOnFlush (arrays st))"

text \<open>
  What follows a call of \<open>Add\<close> or \<open>Flush\<close> of adder \<open>who\<close>: if the adder flushed,
  its hook has run inside the call (a panic there ends the run); then the error the call
  returned, if any, is handled.
\<close>

definition adder_returned ::
  "('a, 'b) ingest_deps \<Rightarrow> adder_id \<Rightarrow> bool \<Rightarrow> error option \<Rightarrow> ('a, 'b) ingest_state
     \<Rightarrow> error option \<times> ('a, 'b) ingest_state" where
  "adder_returned deps who flushed err st =
     (case (if flushed then onFlush deps who st else Inr (arrays st)) of
        Inl p \<Rightarrow> (Some p, st)
      | Inr arr \<Rightarrow>
          let st' = st\<lparr>arrays := arr,
                       events := events st @ (if flushed then [Stored arr] else [])\<rparr>
          in (case err of
                None \<Rightarrow> (None, st')
              | Some e \<Rightarrow>
                  (Some (wrapDuplicate e (duplicate_msg who)),
                   st'\<lparr>events := events st' @ [AdderFailed who e]\<rparr>)))"

text \<open>The body of the inner loop of the ingest task, for one KV.\<close>

definition ingest_kv ::
  "('a, 'b) ingest_deps \<Rightarrow> ('a, 'b) ingest_state \<Rightarrow> KeyValue
     \<Rightarrow> error option \<times> ('a, 'b) ingest_state" where
  "ingest_kv deps st kv =
     (case DecodeTableIDIndexID deps (Key kv) of
        Inl indexErr \<Rightarrow> (Some indexErr, st)
      | Inr (tableID, indexID) \<Rightarrow>
          if indexID = 1
          then
            let (a, flushed, err) = Add (pkOps deps) (pkIndexAdder st) (Key kv) (RawBytes kv)
            in adder_returned deps PkAdder flushed err
                 (st\<lparr>pkIndexAdder := a, events := events st @ [AddCalled PkAdder kv]\<rparr>)
          else
            let (b, flushed, err) = Add (idxOps deps) (indexAdder st) (Key kv) (RawBytes kv)
            in adder_returned deps IdxAdder flushed err
                 (st\<lparr>indexAdder := b, events := events st @ [AddCalled IdxAdder kv]\<rparr>))"

fun ingest_kvs ::
  "('a, 'b) ingest_deps \<Rightarrow> ('a, 'b) ingest_state \<Rightarrow> KeyValue list
     \<Rightarrow> error option \<times> ('a, 'b) ingest_state" where
  "ingest_kvs deps st [] = (None, st)"
| "ingest_kvs deps st (kv # kvs) =
     (case ingest_kv deps st kv of
        (Some err, st') \<Rightarrow> (Some err, st')
      | (None, st') \<Rightarrow> ingest_kvs deps st' kvs)"

text \<open>The three statements that follow the inner loop, for a batch.\<close>

definition end_batch ::
  "(32 word \<times> nat) list \<Rightarrow> KVBatch \<Rightarrow> ('a, 'b) ingest_state
     \<Rightarrow> error option \<times> ('a, 'b) ingest_state" where
  "end_batch offsets kvBatch st =
     (let offset = offset_of offsets (Source kvBatch); arr = arrays st
      in if offset < length (writtenRow arr) \<and> offset < length (writtenFraction arr)
         then
           let arr' = arr\<lparr>writtenRow := (writtenRow arr)[offset := LastRow kvBatch],
                          writtenFraction :=
                            (writtenFraction arr)[offset := Float32bits (Progress kvBatch)]\<rparr>
           in (None, st\<lparr>arrays := arr', events := events st @ [Stored arr']\<rparr>)
         else (Some (Panic ''index out of range''), st))"

fun ingest_batches ::
  "('a, 'b) ingest_deps \<Rightarrow> (32 word \<times> nat) list \<Rightarrow> ('a, 'b) ingest_state \<Rightarrow> KVBatch list
     \<Rightarrow> error option \<times> ('a, 'b) ingest_state" where
  "ingest_batches deps offsets st [] = (None, st)"
| "ingest_batches deps offsets st (kvBatch # rest) =
     (case ingest_kvs deps st (KVs kvBatch) of
        (Some err, st') \<Rightarrow> (Some err, st')
      | (None, st') \<Rightarrow>
          (case end_batch offsets kvBatch st' of
             (Some err, st'') \<Rightarrow> (Some err, st'')
           | (None, st'') \<Rightarrow> ingest_batches deps offsets st'' rest))"

text \<open>The two flushes and the summary, after \<open>g.Wait()\<close> has returned nil.\<close>

definition flush_adders ::
  "('a, 'b) ingest_deps \<Rightarrow> ('a, 'b) ingest_state \<Rightarrow> (error + BulkOpSummary) \<times> event list" where
  "flush_adders deps st =
     (let (a, flushed, err) = Flush (pkOps deps) (pkIndexAdder st)
      in case adder_returned deps PkAdder flushed err (st\<lparr>pkIndexAdder := a\<rparr>) of
           (Some e, st1) \<Rightarrow> (Inl e, events st1)
         | (None, st1) \<Rightarrow>
             let (b, flushed', err') = Flush (idxOps deps) (indexAdder st1)
             in (case adder_returned deps IdxAdder flushed' err' (st1\<lparr>indexAdder := b\<rparr>) of
                   (Some e, st2) \<Rightarrow> (Inl e, events st2)
                 | (None, st2) \<Rightarrow>
                     (Inr (BulkOpSummary_Add (GetSummary (pkOps deps) (pkIndexAdder st2))
                                             (GetSummary (idxOps deps) (indexAdder st2))),
                      events st2)))"

text \<open>
  How the reporter task (the first task of the group) ends. It returns nil when it finds
  \<open>stopProgress\<close> closed. It returns \<open>ctx.Err()\<close> when it finds the context done:
  \<open>ContextDone err first\<close> gives that error and whether the task returned it before
  the ingest task returned. The context is done when the caller cancels it, or when the
  ingest task has returned an error to the group. Which case the \<open>select\<close> takes, and
  when, is the scheduler's choice, so it is given to \<open>ingestKvs\<close>.
\<close>

datatype reporter_exit = StopProgress | ContextDone error bool

text \<open>
  \<open>g.Wait()\<close>: the first error that a task of the group returned, given how the
  reporter task ended and what the ingest task returned.
\<close>

fun g_Wait :: "reporter_exit \<Rightarrow> error option \<Rightarrow> error option" where
  "g_Wait StopProgress ingestErr = ingestErr"
| "g_Wait (ContextDone err True) ingestErr = Some err"
| "g_Wait (ContextDone err False) ingestErr =
     (case ingestErr of Some e \<Rightarrow> Some e | None \<Rightarrow> Some err)"

text \<open>
  \<open>ingestKvs\<close>: \<open>reporter\<close> is how the reporter task ends, \<open>files\<close> are the keys of
  \<open>spec.Uri\<close> in the order the loop setting up \<open>offsets\<close> visits them, \<open>kvCh\<close> the
  batches received until the channel is closed. The ingest task does not look at the
  context: it runs until the channel is closed or a step fails, whatever the reporter
  task does. The result is what the function returns (the error, or the summary), with
  the events of the run.
\<close>

definition ingestKvs ::
  "('a, 'b) ingest_deps \<Rightarrow> reporter_exit \<Rightarrow> 32 word list \<Rightarrow> KVBatch list
     \<Rightarrow> (error + BulkOpSummary) \<times> event list" where
  "ingestKvs deps reporter files kvCh =
     (case NewPkAdder deps of
        Inl err \<Rightarrow> (Inl err, [])
      | Inr a \<Rightarrow>
          (case NewIndexAdder deps of
             Inl err \<Rightarrow> (Inl err, [])
           | Inr b \<Rightarrow>
               let n = length files;
                   arr = \<lparr>writtenRow = replicate n 0, writtenFraction = replicate n 0,
                          pkFlushedRow = replicate n 0, idxFlushedRow = replicate n 0\<rparr>;
                   offsets = mk_offsets files 0;
                   st = \<lparr>pkIndexAdder = a, indexAdder = b, arrays = arr, events = [Stored arr]\<rparr>
               in (case ingest_batches deps offsets st kvCh of
                     (ingestErr, st') \<Rightarrow>
                       (case g_Wait reporter ingestErr of
                          Some err \<Rightarrow> (Inl err, events st')
                        | None \<Rightarrow> flush_adders deps st'))))"

text \<open>
  Successive batches of a file carry row numbers that never decrease: \<open>w\<close> is
  \<open>writtenRow\<close> before the batches.
\<close>

fun rows_nondecreasing :: "(32 word \<times> nat) list \<Rightarrow> 64 word list \<Rightarrow> KVBatch list \<Rightarrow> bool" where
  "rows_nondecreasing offsets w [] = True"
| "rows_nondecreasing offsets w (kvBatch # rest) =
     (let offset = offset_of offsets (Source kvBatch)
      in (offset < length w \<longrightarrow> w ! offset \<le> LastRow kvBatch)
         \<and> rows_nondecreasing offsets (w[offset := LastRow kvBatch]) rest)"

section \<open>Saving rejected rows (read\_import\_base.go)\<close>

datatype IOFileFormat_FileFormat =
    IOFileFormat_Unknown | IOFileFormat_CSV | IOFileFormat_MysqlOutfile
  | IOFileFormat_Mysqldump | IOFileFormat_PgCopy | IOFileFormat_PgDump

record MySQLOutfileOptions =
  SaveRejected :: bool

record IOFileFormat =
  Format :: IOFileFormat_FileFormat
  MysqlOut :: MySQLOutfileOptions
  Compression :: IOFileFormat_Compression

text \<open>
  The collaborators: \<open>url.Parse\<close>, \<open>storageccl.ExportStorageConfFromURI\<close> (giving a
  configuration of some type \<open>'c\<close>), \<open>storageccl.MakeExportStorage\<close> and the
  \<open>WriteFile\<close> of the storage made from a configuration (the error, if any).
\<close>

record 'c storage_deps =
  Parse :: "string \<Rightarrow> error + URL"
  ExportStorageConfFromURI :: "string \<Rightarrow> error + 'c"
  MakeExportStorage :: "'c \<Rightarrow> error option"
  WriteFile :: "'c \<Rightarrow> string \<Rightarrow> bytes \<Rightarrow> error option"

text \<open>
  The loop of the task that receives from the \<open>rejected\<close> channel: the buffer and
  \<open>atFirstLine\<close> after the strings received.
\<close>

fun receive_rejected :: "string list \<Rightarrow> bytes \<times> bool \<Rightarrow> bytes \<times> bool" where
  "receive_rejected [] (buf, atFirstLine) = (buf, atFirstLine)"
| "receive_rejected (s # rest) (buf, atFirstLine) = receive_rejected rest (buf @ s, False)"

text \<open>
  That task, given the strings it receives until the channel is closed: the error it
  returns, and the files written, each as the configuration of the storage, the base
  name given to \<open>WriteFile\<close> and the content.
\<close>

definition save_rejected ::
  "'c storage_deps \<Rightarrow> string \<Rightarrow> string list \<Rightarrow> error option \<times> ('c \<times> string \<times> bytes) list" where
  "save_rejected deps dataFile rejected =
     (let (buf, atFirstLine) = receive_rejected rejected ([], True)
      in if atFirstLine then (None, [])
         else
           let rejectedFile = dataFile
           in (case Parse deps rejectedFile of
                 Inl err \<Rightarrow> (Some err, [])
               | Inr parsedURI \<Rightarrow>
                   let parsedURI' = parsedURI\<lparr>Path := Path parsedURI @ ''.rejected''\<rparr>
                   in (case ExportStorageConfFromURI deps rejectedFile of
                         Inl err \<Rightarrow> (Some err, [])
                       | Inr conf \<Rightarrow>
                           (case MakeExportStorage deps conf of
                              Some err \<Rightarrow> (Some err, [])
                            | None \<Rightarrow>
                                (case WriteFile deps conf [] buf of
                                   Some err \<Rightarrow> (Some err, [])
                                 | None \<Rightarrow> (None, [(conf, [], buf)]))))))"

text \<open>
  The part of \<open>readInputFiles\<close> that runs the parser on one file. \<open>fileFunc\<close> is the
  parser on this file: given whether the \<open>rejected\<close> channel is non-nil, the strings it
  sends there and the error it returns. With the channel, the parser and the task above
  run in one group, whose error is the parser's if it has one.
\<close>

definition read_file_rejected ::
  "'c storage_deps \<Rightarrow> IOFileFormat \<Rightarrow> (bool \<Rightarrow> string list \<times> error option) \<Rightarrow> string
     \<Rightarrow> error option \<times> ('c \<times> string \<times> bytes) list" where
  "read_file_rejected deps fmt fileFunc dataFile =
     (if Format fmt = IOFileFormat_MysqlOutfile \<and> SaveRejected (MysqlOut fmt)
      then
        let (rejected, perr) = fileFunc True;
            (werr, written) = save_rejected deps dataFile rejected
        in (case perr of
              Some err \<Rightarrow> (Some (Wrap (Wrap err dataFile) dataFile), written)
            | None \<Rightarrow>
                (case werr of
                   Some err \<Rightarrow> (Some (Wrap err dataFile), written)
                 | None \<Rightarrow> (None, written)))
      else
        let (rejected, perr) = fileFunc False
        in (case perr of
              Some err \<Rightarrow> (Some (Wrap err dataFile), [])
            | None \<Rightarrow> (None, [])))"

section \<open>Instances of the collaborators, for the examples\<close>

text \<open>
  The examples below run the functions above on concrete collaborators: a parser of URIs
  that takes what precedes the first \<open>?\<close> as the path, a blob storage whose
  configuration is the URI itself and whose operations succeed, a parser of a data file
  that rejects the given rows and returns no error, a decoder that reads the
  table and index IDs from the first two characters of a key (digits), and an adder that
  buffers up to \<open>cap\<close> KVs, flushes when the buffer is full, and rejects a key of
  more than 8 bytes and a key that is already in its buffer.
\<close>

definition ex_Parse :: "string \<Rightarrow> error + URL" where
  "ex_Parse s = Inr \<lparr>Path = takeWhile (\<lambda>c. c \<noteq> CHR ''?'') s\<rparr>"

definition ex_storage :: "string storage_deps" where
  "ex_storage =
     \<lparr>Parse = ex_Parse, ExportStorageConfFromURI = Inr,
      MakeExportStorage = (\<lambda>conf. None), WriteFile = (\<lambda>conf basename content. None)\<rparr>"

definition ex_fileFunc :: "string list \<Rightarrow> bool \<Rightarrow> string list \<times> error option" where
  "ex_fileFunc rows withChannel = (if withChannel then rows else [], None)"

definition ex_decode :: "bytes \<Rightarrow> error + 32 word \<times> 32 word" where
  "ex_decode k =
     (case k of
        t # i # rest \<Rightarrow> Inr (of_nat (of_char t - 48), of_nat (of_char i - 48))
      | _ \<Rightarrow> Inl (Err ''insufficient bytes to decode''))"

definition ex_adder :: "nat \<Rightarrow> (KeyValue list \<times> int) BulkAdder" where
  "ex_adder cap =
     \<lparr>Add = (\<lambda>(buf, flushed) k v.
               if 8 < length k then ((buf, flushed), False, Some (Err ''key too long''))
               else if k \<in> set (map Key buf)
               then ((buf, flushed), False, Some (DuplicateKeyError k v))
               else if cap \<le> length buf
               then (([\<lparr>Key = k, RawBytes = v\<rparr>], flushed + int (length buf)), True, None)
               else ((buf @ [\<lparr>Key = k, RawBytes = v\<rparr>], flushed), False, None)),
      Flush = (\<lambda>(buf, flushed). (([], flushed + int (length buf)), True, None)),
      IsEmpty = (\<lambda>(buf, flushed). buf = []),
      GetSummary = (\<lambda>(buf, flushed). \<lparr>DataSize = flushed\<rparr>)\<rparr>"

definition ex_ingest :: "nat \<Rightarrow> (KeyValue list \<times> int, KeyValue list \<times> int) ingest_deps" where
  "ex_ingest cap =
     \<lparr>NewPkAdder = Inr ([], 0), NewIndexAdder = Inr ([], 0),
      pkOps = ex_adder cap, idxOps = ex_adder cap, DecodeTableIDIndexID = ex_decode\<rparr>"

definition ex_emit :: "Span list \<Rightarrow> nat \<Rightarrow> emit_deps" where
  "ex_emit spans limit =
     \<lparr>LoadJob = Inr \<lparr>Details = Progress_Import \<lparr>SpanProgress = spans\<rparr>\<rparr>,
      ContainsKey = (\<lambda>sp k. take (length (StartKey sp)) k = StartKey sp),
      IsDescriptorKey = (\<lambda>k. False),
      Push = (\<lambda>rows. if length rows < limit then NeedMoreRows else ConsumerClosed)\<rparr>"

section \<open>Notions used to state the properties of the sampler\<close>

text \<open>A batch without the KVs whose key lies in a completed span.\<close>

definition drop_completed :: "emit_deps \<Rightarrow> Span list \<Rightarrow> KVBatch \<Rightarrow> KVBatch" where
  "drop_completed deps spans b =
     b\<lparr>KVs := filter (\<lambda>kv. \<not> SpanGroup_Contains (ContainsKey deps) spans (Key kv)) (KVs b)\<rparr>"

text \<open>The two-column row that carries the full key and the full value of a KV.\<close>

definition full_row :: "KeyValue \<Rightarrow> EncDatumRow" where
  "full_row kv = (Key kv, RawBytes kv)"

text \<open>A generator for the examples: every draw is 1/2.\<close>

definition ex_rand :: Rand where
  "ex_rand = \<lparr>draws = (\<lambda>i. 1 / 2), drawn = 0\<rparr>"

section \<open>Notions used to state the properties of the ingestor\<close>



text \<open>
  The progress slices have \<open>n\<close> slots each and, if \<open>m\<close> holds, no flushed row exceeds
  the written row of its slot.
\<close>

definition good :: "bool \<Rightarrow> nat \<Rightarrow> progress_arrays \<Rightarrow> bool" where
  "good m n arr \<longleftrightarrow>
     length (writtenRow arr) = n \<and> length (writtenFraction arr) = n
     \<and> length (pkFlushedRow arr) = n \<and> length (idxFlushedRow arr) = n
     \<and> (m \<longrightarrow> (\<forall>j < n. pkFlushedRow arr ! j \<le> writtenRow arr ! j
                        \<and> idxFlushedRow arr ! j \<le> writtenRow arr ! j))"

definition all_good :: "bool \<Rightarrow> nat \<Rightarrow> event list \<Rightarrow> bool" where
  "all_good m n evs \<longleftrightarrow> (\<forall>arr. Stored arr \<in> set evs \<longrightarrow> good m n arr)"

text \<open>The row that the reporter task sends for a file, if it sends a record.\<close>

definition reported_row :: "(32 word \<times> nat) list \<Rightarrow> progress_arrays \<Rightarrow> 32 word \<Rightarrow> 64 word option" where
  "reported_row offsets arr file =
     (case report offsets arr of Inl p \<Rightarrow> None | Inr prog \<Rightarrow> CompletedRow prog file)"

text \<open>The invariant of the ingest task: the slices and every state stored so far are good.\<close>

definition ingest_inv :: "bool \<Rightarrow> nat \<Rightarrow> ('a, 'b) ingest_state \<Rightarrow> bool" where
  "ingest_inv m n st \<longleftrightarrow> good m n (arrays st) \<and> all_good m n (events st)"

section \<open>Compression detection: properties\<close>

lemma HasSuffix_last:
  assumes "HasSuffix s sfx" "sfx \<noteq> []"
  shows "last s = last sfx"
proof -
  have d: "drop (length s - length sfx) s = sfx" and l: "length sfx \<le> length s"
    using assms(1) by (auto simp: HasSuffix_def)
  have "length s - length sfx < length s" using l assms(2) by (cases sfx) auto
  then have "last (drop (length s - length sfx) s) = last s" by (rule last_drop)
  then show ?thesis using d by simp
qed

lemma gz_not_bz: "HasSuffix s ''.gz'' \<Longrightarrow> \<not> HasSuffix s ''.bz''"
  by (auto simp: HasSuffix_def)

lemma gz_not_bz2: "HasSuffix s ''.gz'' \<Longrightarrow> \<not> HasSuffix s ''.bz2''"
  using HasSuffix_last[of s "''.gz''"] HasSuffix_last[of s "''.bz2''"] by auto

lemma guess_total:
  assumes shrink: "\<forall>n u. url_Parse n = Inr u \<and> Path u \<noteq> n \<longrightarrow> length (Path u) < length n"
  shows "\<exists>c. guessCompressionFromName url_Parse name hint = Some c"
proof (induction name rule: length_induct)
  case (1 name)
  show ?case
  proof (cases "url_Parse name")
    case (Inl err)
    then show ?thesis
      by (subst guessCompressionFromName.simps) simp
  next
    case (Inr parsed)
    show ?thesis
    proof (cases "Path parsed = name")
      case True
      then show ?thesis using Inr
        by (subst guessCompressionFromName.simps) simp
    next
      case False
      then have "length (Path parsed) < length name" using shrink Inr by blast
      then obtain c where "guessCompressionFromName url_Parse (Path parsed) hint = Some c"
        using 1 by blast
      then show ?thesis using Inr False
        by (subst guessCompressionFromName.simps) auto
    qed
  qed
qed

text \<open>
  C9. \<open>guessCompressionFromName\<close> returns a hint other than Auto unchanged. With the
  hint Auto it returns Gzip for a name ending in \<open>.gz\<close> and Bzip for a name ending in
  \<open>.bz\<close> or \<open>.bz2\<close>; for any other name that parses as a URI whose path differs from
  the name it returns what the same rules give for the path, and None otherwise. It
  returns for every name, provided a path that \<open>url.Parse\<close> gives and that differs from
  its input is shorter than it.
\<close>

theorem guessCompressionFromName_rules:
  "(hint \<noteq> IOFileFormat_Auto \<longrightarrow> guessCompressionFromName url_Parse name hint = Some hint)
   \<and> (HasSuffix name ''.gz'' \<longrightarrow>
        guessCompressionFromName url_Parse name IOFileFormat_Auto = Some IOFileFormat_Gzip)
   \<and> (HasSuffix name ''.bz'' \<or> HasSuffix name ''.bz2'' \<longrightarrow>
        guessCompressionFromName url_Parse name IOFileFormat_Auto = Some IOFileFormat_Bzip)
   \<and> (\<not> HasSuffix name ''.gz'' \<and> \<not> HasSuffix name ''.bz'' \<and> \<not> HasSuffix name ''.bz2'' \<longrightarrow>
        guessCompressionFromName url_Parse name IOFileFormat_Auto =
          (case url_Parse name of
             Inr parsed \<Rightarrow>
               if Path parsed \<noteq> name
               then guessCompressionFromName url_Parse (Path parsed) IOFileFormat_Auto
               else Some IOFileFormat_None
           | Inl err \<Rightarrow> Some IOFileFormat_None))
   \<and> ((\<forall>n u. url_Parse n = Inr u \<and> Path u \<noteq> n \<longrightarrow> length (Path u) < length n) \<longrightarrow>
        (\<exists>c. guessCompressionFromName url_Parse name hint = Some c))"
proof (intro conjI impI)
  assume "hint \<noteq> IOFileFormat_Auto"
  then show "guessCompressionFromName url_Parse name hint = Some hint"
    by (subst guessCompressionFromName.simps) simp
next
  assume "HasSuffix name ''.gz''"
  then show "guessCompressionFromName url_Parse name IOFileFormat_Auto = Some IOFileFormat_Gzip"
    by (subst guessCompressionFromName.simps) simp
next
  assume b: "HasSuffix name ''.bz'' \<or> HasSuffix name ''.bz2''"
  then have "\<not> HasSuffix name ''.gz''" using gz_not_bz gz_not_bz2 by blast
  then show "guessCompressionFromName url_Parse name IOFileFormat_Auto = Some IOFileFormat_Bzip"
    using b by (subst guessCompressionFromName.simps) auto
next
  assume "\<not> HasSuffix name ''.gz'' \<and> \<not> HasSuffix name ''.bz'' \<and> \<not> HasSuffix name ''.bz2''"
  then show "guessCompressionFromName url_Parse name IOFileFormat_Auto =
          (case url_Parse name of
             Inr parsed \<Rightarrow>
               if Path parsed \<noteq> name
               then guessCompressionFromName url_Parse (Path parsed) IOFileFormat_Auto
               else Some IOFileFormat_None
           | Inl err \<Rightarrow> Some IOFileFormat_None)"
    by (subst guessCompressionFromName.simps) simp
next
  assume "\<forall>n u. url_Parse n = Inr u \<and> Path u \<noteq> n \<longrightarrow> length (Path u) < length n"
  then show "\<exists>c. guessCompressionFromName url_Parse name hint = Some c"
    by (rule guess_total)
qed

lemma ex_Parse_shrinks:
  "\<forall>n u. ex_Parse n = Inr u \<and> Path u \<noteq> n \<longrightarrow> length (Path u) < length n"
proof (intro allI impI)
  fix n u
  assume a: "ex_Parse n = Inr u \<and> Path u \<noteq> n"
  then have p: "Path u = takeWhile (\<lambda>c. c \<noteq> CHR ''?'') n" by (auto simp: ex_Parse_def)
  have "length (takeWhile (\<lambda>c. c \<noteq> CHR ''?'') n) \<le> length n" by (rule length_takeWhile_le)
  moreover have "length (takeWhile (\<lambda>c. c \<noteq> CHR ''?'') n) \<noteq> length n"
  proof
    assume "length (takeWhile (\<lambda>c. c \<noteq> CHR ''?'') n) = length n"
    then have "takeWhile (\<lambda>c. c \<noteq> CHR ''?'') n = n"
      by (metis takeWhile_eq_take take_all order_refl)
    then show False using a p by simp
  qed
  ultimately show "length (Path u) < length n" using p by simp
qed

text \<open>
  The rules on names of each kind; a name whose path ends in \<open>.gz\<close> and is followed
  by a query is detected as gzip.
\<close>

theorem guessCompressionFromName_rules_witness:
  "guessCompressionFromName ex_Parse ''data.csv'' IOFileFormat_Gzip = Some IOFileFormat_Gzip
   \<and> guessCompressionFromName ex_Parse ''data.csv.gz'' IOFileFormat_Auto = Some IOFileFormat_Gzip
   \<and> guessCompressionFromName ex_Parse ''data.sql.bz2'' IOFileFormat_Auto = Some IOFileFormat_Bzip
   \<and> guessCompressionFromName ex_Parse ''https://host/data.csv.gz?sig=abc'' IOFileFormat_Auto
       = Some IOFileFormat_Gzip
   \<and> guessCompressionFromName ex_Parse ''https://host/data.csv'' IOFileFormat_Auto
       = Some IOFileFormat_None
   \<and> (\<exists>c. guessCompressionFromName ex_Parse ''https://host/data?x=1?y=2'' IOFileFormat_Auto = Some c)"
proof -
  have 1: "guessCompressionFromName ex_Parse ''data.csv'' IOFileFormat_Gzip = Some IOFileFormat_Gzip"
    using guessCompressionFromName_rules[of IOFileFormat_Gzip ex_Parse "''data.csv''"] by simp
  have 2: "guessCompressionFromName ex_Parse ''data.csv.gz'' IOFileFormat_Auto = Some IOFileFormat_Gzip"
    using guessCompressionFromName_rules[of IOFileFormat_Auto ex_Parse "''data.csv.gz''"]
    by (simp add: HasSuffix_def)
  have 3: "guessCompressionFromName ex_Parse ''data.sql.bz2'' IOFileFormat_Auto = Some IOFileFormat_Bzip"
    using guessCompressionFromName_rules[of IOFileFormat_Auto ex_Parse "''data.sql.bz2''"]
    by (simp add: HasSuffix_def)
  have 4: "guessCompressionFromName ex_Parse ''https://host/data.csv.gz?sig=abc'' IOFileFormat_Auto
       = guessCompressionFromName ex_Parse ''https://host/data.csv.gz'' IOFileFormat_Auto"
    using guessCompressionFromName_rules[of IOFileFormat_Auto ex_Parse "''https://host/data.csv.gz?sig=abc''"]
    by (simp add: HasSuffix_def ex_Parse_def)
  have 5: "guessCompressionFromName ex_Parse ''https://host/data.csv.gz'' IOFileFormat_Auto = Some IOFileFormat_Gzip"
    using guessCompressionFromName_rules[of IOFileFormat_Auto ex_Parse "''https://host/data.csv.gz''"]
    by (simp add: HasSuffix_def)
  have 6: "guessCompressionFromName ex_Parse ''https://host/data.csv'' IOFileFormat_Auto
       = Some IOFileFormat_None"
    using guessCompressionFromName_rules[of IOFileFormat_Auto ex_Parse "''https://host/data.csv''"]
    by (simp add: HasSuffix_def ex_Parse_def)
  have 7: "\<exists>c. guessCompressionFromName ex_Parse ''https://host/data?x=1?y=2'' IOFileFormat_Auto = Some c"
    using guessCompressionFromName_rules[of IOFileFormat_Auto ex_Parse "''https://host/data?x=1?y=2''"]
      ex_Parse_shrinks by blast
  show ?thesis using 1 2 3 4 5 6 7 by simp
qed

section \<open>Floating-point rounding: properties\<close>

lemma pow2_less_cancel:
  assumes "(2::rat) powi k < 2 powi m"
  shows "k < m"
proof (rule ccontr)
  assume "\<not> k < m"
  then have "m \<le> k" by simp
  then have "(2::rat) powi m \<le> 2 powi k" by (rule power_int_increasing) simp
  then show False using assms by simp
qed

lemma ilog2_bounds:
  assumes "0 < q"
  shows "2 powi (ilog2 q) \<le> q \<and> q < 2 powi (ilog2 q + 1)"
proof -
  obtain a b where ab: "quotient_of q = (a, b)" by (cases "quotient_of q")
  have b: "0 < b" using ab quotient_of_denom_pos by blast
  have q: "q = of_int a / of_int b" using ab quotient_of_div by blast
  have a: "0 < a" using assms b q
    by (simp add: zero_less_divide_iff)
  define la lb where "la = bitlen a" and "lb = bitlen b"
  have pa: "1 \<le> la" using a by (simp add: bitlen_alt_def la_def)
  have pb: "1 \<le> lb" using b by (simp add: bitlen_alt_def lb_def)
  have "rat_of_int (2 ^ nat (la - 1)) \<le> of_int a"
    unfolding la_def using bitlen_bounds[OF a] by (simp only: of_int_le_iff)
  then have a_lo: "(2::rat) powi (la - 1) \<le> of_int a"
    using pa by (simp add: power_int_nonneg_exp)
  have "rat_of_int a < of_int (2 ^ nat la)"
    unfolding la_def using bitlen_bounds[OF a] by (simp only: of_int_less_iff)
  then have a_hi: "of_int a < (2::rat) powi la"
    using pa by (simp add: power_int_nonneg_exp)
  have "rat_of_int (2 ^ nat (lb - 1)) \<le> of_int b"
    unfolding lb_def using bitlen_bounds[OF b] by (simp only: of_int_le_iff)
  then have b_lo: "(2::rat) powi (lb - 1) \<le> of_int b"
    using pb by (simp add: power_int_nonneg_exp)
  have "rat_of_int b < of_int (2 ^ nat lb)"
    unfolding lb_def using bitlen_bounds[OF b] by (simp only: of_int_less_iff)
  then have b_hi: "of_int b < (2::rat) powi lb"
    using pb by (simp add: power_int_nonneg_exp)
  have rb: "0 < rat_of_int b" and ra: "0 < rat_of_int a" using a b by simp_all
  have "(2::rat) powi (la - lb - 1) = 2 powi ((la - 1) - lb)"
    by (simp add: algebra_simps)
  also have "\<dots> = 2 powi (la - 1) / 2 powi lb"
    by (rule power_int_diff) simp
  also have "\<dots> \<le> of_int a / 2 powi lb"
    using a_lo by (simp add: divide_right_mono)
  also have "\<dots> < of_int a / of_int b"
    using b_hi rb ra by (simp add: divide_strict_left_mono)
  finally have lo: "(2::rat) powi (la - lb - 1) < q" using q by simp
  have "q = of_int a / of_int b" by (rule q)
  also have "\<dots> < 2 powi la / of_int b"
    using a_hi rb by (simp add: divide_strict_right_mono)
  also have "\<dots> \<le> 2 powi la / 2 powi (lb - 1)"
    using b_lo rb by (intro divide_left_mono) simp_all
  also have "\<dots> = 2 powi (la - (lb - 1))"
    by (rule power_int_diff [symmetric]) simp
  also have "\<dots> = 2 powi (la - lb + 1)"
    by (simp add: algebra_simps)
  finally have hi: "q < (2::rat) powi (la - lb + 1)" .
  have e: "ilog2 q = (if 2 powi (la - lb) \<le> q then la - lb else la - lb - 1)"
    by (simp add: ilog2_def ab la_def lb_def)
  show ?thesis
  proof (cases "2 powi (la - lb) \<le> q")
    case True
    then show ?thesis using hi e by simp
  next
    case False
    then show ?thesis using lo e by simp
  qed
qed

lemma ilog2_less:
  assumes "0 < q" "q < 2 powi k"
  shows "ilog2 q < k"
proof -
  have "2 powi (ilog2 q) \<le> q" using ilog2_bounds[OF assms(1)] by simp
  then have "(2::rat) powi (ilog2 q) < 2 powi k" using assms(2) by simp
  then show ?thesis by (rule pow2_less_cancel)
qed

lemma ilog2_ge:
  assumes "0 < q" "2 powi k \<le> q"
  shows "k \<le> ilog2 q"
proof -
  have "q < 2 powi (ilog2 q + 1)" using ilog2_bounds[OF assms(1)] by simp
  then have "(2::rat) powi k < 2 powi (ilog2 q + 1)" using assms(2) by simp
  then have "k < ilog2 q + 1" by (rule pow2_less_cancel)
  then show ?thesis by simp
qed

lemma ilog2_mono:
  assumes "0 < a" "a \<le> b"
  shows "ilog2 a \<le> ilog2 b"
proof -
  have "0 < b" using assms by simp
  have "2 powi (ilog2 a) \<le> a" using ilog2_bounds[OF assms(1)] by simp
  then have "2 powi (ilog2 a) \<le> b" using assms(2) by simp
  then show ?thesis by (rule ilog2_ge[OF \<open>0 < b\<close>])
qed

lemma round_half_even_of_int: "round_half_even (of_int k) = k"
  by (simp add: round_half_even_def)

lemma round_half_even_floor: "\<lfloor>q\<rfloor> \<le> round_half_even q"
  by (simp add: round_half_even_def Let_def)

lemma round_half_even_ceil: "round_half_even q \<le> \<lfloor>q\<rfloor> + 1"
  by (simp add: round_half_even_def Let_def)

lemma round_half_even_mono:
  assumes "a \<le> b"
  shows "round_half_even a \<le> round_half_even b"
proof (cases "\<lfloor>a\<rfloor> = \<lfloor>b\<rfloor>")
  case True
  then show ?thesis using assms by (auto simp: round_half_even_def Let_def)
next
  case False
  then have "\<lfloor>a\<rfloor> < \<lfloor>b\<rfloor>" using floor_mono[OF assms] by simp
  then have "\<lfloor>a\<rfloor> + 1 \<le> \<lfloor>b\<rfloor>" by simp
  then show ?thesis
    using round_half_even_ceil[of a] round_half_even_floor[of b] by linarith
qed

lemma round_half_even_ge: "of_int k \<le> q \<Longrightarrow> k \<le> round_half_even q"
  using round_half_even_mono[of "of_int k" q] by (simp add: round_half_even_of_int)

lemma round_half_even_le: "q \<le> of_int k \<Longrightarrow> round_half_even q \<le> k"
  using round_half_even_mono[of q "of_int k"] by (simp add: round_half_even_of_int)

lemma round_to_pos:
  "0 < q \<Longrightarrow> round_to fmt q = of_int (round_half_even (q / ulp fmt q)) * ulp fmt q"
  by (simp add: round_to_def)

lemma round_to_minus: "round_to fmt (- q) = - round_to fmt q"
  by (simp add: round_to_def ulp_def expo_def)

lemma ulp_pos: "0 < ulp fmt q"
  by (simp add: ulp_def)

lemma ulp_scale:
  assumes "1 \<le> precision fmt"
  shows "of_int (2 ^ (precision fmt - 1)) * ulp fmt q = 2 powi (expo fmt q)"
proof -
  have "rat_of_int (2 ^ (precision fmt - 1)) = 2 powi (int (precision fmt) - 1)"
    using assms by (simp add: power_int_nonneg_exp nat_diff_distrib)
  then have "of_int (2 ^ (precision fmt - 1)) * ulp fmt q
      = 2 powi (int (precision fmt) - 1) * 2 powi (expo fmt q - (int (precision fmt) - 1))"
    by (simp add: ulp_def)
  also have "\<dots> = 2 powi ((int (precision fmt) - 1) + (expo fmt q - (int (precision fmt) - 1)))"
    by (rule power_int_add [symmetric]) simp
  finally show ?thesis by simp
qed

lemma scaled_le:
  assumes "m \<le> round_half_even (q / ulp fmt q)"
  shows "of_int m * ulp fmt q \<le> of_int (round_half_even (q / ulp fmt q)) * ulp fmt q"
proof -
  have "rat_of_int m \<le> of_int (round_half_even (q / ulp fmt q))"
    using assms by (simp only: of_int_le_iff)
  then show ?thesis using ulp_pos[of fmt q] by (simp only: mult_le_cancel_right_pos)
qed

lemma scaled_ge:
  assumes "round_half_even (q / ulp fmt q) \<le> m"
  shows "of_int (round_half_even (q / ulp fmt q)) * ulp fmt q \<le> of_int m * ulp fmt q"
proof -
  have "rat_of_int (round_half_even (q / ulp fmt q)) \<le> of_int m"
    using assms by (simp only: of_int_le_iff)
  then show ?thesis using ulp_pos[of fmt q] by (simp only: mult_le_cancel_right_pos)
qed

lemma round_to_lower:
  assumes q: "0 < q" and p: "1 \<le> precision fmt" and n: "emin fmt \<le> ilog2 q"
  shows "2 powi (ilog2 q) \<le> round_to fmt q"
proof -
  let ?u = "ulp fmt q"
  have e: "expo fmt q = ilog2 q" using q n by (simp add: expo_def)
  have "of_int (2 ^ (precision fmt - 1)) * ?u \<le> q"
    using ulp_scale[OF p, of q] e ilog2_bounds[OF q] by simp
  then have "of_int (2 ^ (precision fmt - 1)) \<le> q / ?u"
    using ulp_pos[of fmt q] by (simp add: pos_le_divide_eq)
  then have "2 ^ (precision fmt - 1) \<le> round_half_even (q / ?u)"
    by (rule round_half_even_ge)
  then have "of_int (2 ^ (precision fmt - 1)) * ?u \<le> of_int (round_half_even (q / ?u)) * ?u"
    by (rule scaled_le)
  then show ?thesis
    using ulp_scale[OF p, of q] e round_to_pos[OF q, of fmt] by simp
qed

lemma round_to_upper_expo:
  assumes q: "0 < q" and p: "1 \<le> precision fmt"
  shows "round_to fmt q \<le> 2 powi (expo fmt q + 1)"
proof -
  let ?u = "ulp fmt q"
  have "q < 2 powi (ilog2 q + 1)" using ilog2_bounds[OF q] by simp
  also have "\<dots> \<le> 2 powi (expo fmt q + 1)"
    using q by (intro power_int_increasing) (simp_all add: expo_def)
  also have "\<dots> = 2 * 2 powi (expo fmt q)"
    by (simp add: power_int_add)
  also have "\<dots> = of_int (2 * 2 ^ (precision fmt - 1)) * ?u"
    using ulp_scale[OF p, of q] by simp
  finally have "q / ?u \<le> of_int (2 * 2 ^ (precision fmt - 1))"
    using ulp_pos[of fmt q] by (simp add: pos_divide_le_eq)
  then have "round_half_even (q / ?u) \<le> 2 * 2 ^ (precision fmt - 1)"
    by (rule round_half_even_le)
  then have "of_int (round_half_even (q / ?u)) * ?u \<le> of_int (2 * 2 ^ (precision fmt - 1)) * ?u"
    by (rule scaled_ge)
  also have "\<dots> = 2 * 2 powi (expo fmt q)"
    using ulp_scale[OF p, of q] by simp
  also have "\<dots> = 2 powi (expo fmt q + 1)"
    by (simp add: power_int_add)
  finally show ?thesis using round_to_pos[OF q, of fmt] by simp
qed

lemma round_to_upper:
  assumes q: "0 < q" and p: "1 \<le> precision fmt" and k: "q \<le> 2 powi k" "emin fmt \<le> k"
  shows "round_to fmt q \<le> 2 powi k"
proof (cases "expo fmt q + 1 \<le> k")
  case True
  have "round_to fmt q \<le> 2 powi (expo fmt q + 1)" by (rule round_to_upper_expo[OF q p])
  also have "\<dots> \<le> 2 powi k" using True by (intro power_int_increasing) simp_all
  finally show ?thesis .
next
  case False
  let ?u = "ulp fmt q"
  have "q < 2 powi (k + 1)"
    using k(1) power_int_strict_increasing[of k "k + 1" "2::rat"] by simp
  then have "ilog2 q < k + 1" by (rule ilog2_less[OF q])
  then have e: "expo fmt q = k" using False k(2) q by (simp add: expo_def)
  have "q \<le> of_int (2 ^ (precision fmt - 1)) * ?u"
    using ulp_scale[OF p, of q] e k(1) by simp
  then have "q / ?u \<le> of_int (2 ^ (precision fmt - 1))"
    using ulp_pos[of fmt q] by (simp add: pos_divide_le_eq)
  then have "round_half_even (q / ?u) \<le> 2 ^ (precision fmt - 1)"
    by (rule round_half_even_le)
  then have "of_int (round_half_even (q / ?u)) * ?u \<le> of_int (2 ^ (precision fmt - 1)) * ?u"
    by (rule scaled_ge)
  then show ?thesis
    using ulp_scale[OF p, of q] e round_to_pos[OF q, of fmt] by simp
qed

lemma round_to_mono:
  assumes a: "0 < a" and ab: "a \<le> b" and p: "1 \<le> precision fmt"
  shows "round_to fmt a \<le> round_to fmt b"
proof -
  have b: "0 < b" using a ab by simp
  have ee: "expo fmt a \<le> expo fmt b"
    using ilog2_mono[OF a ab] a b by (simp add: expo_def)
  show ?thesis
  proof (cases "expo fmt a = expo fmt b")
    case True
    then have u: "ulp fmt a = ulp fmt b" by (simp add: ulp_def)
    have "a / ulp fmt b \<le> b / ulp fmt b"
      using ab ulp_pos[of fmt b] by (simp add: divide_right_mono)
    then have "round_half_even (a / ulp fmt b) \<le> round_half_even (b / ulp fmt b)"
      by (rule round_half_even_mono)
    then have "of_int (round_half_even (a / ulp fmt b)) * ulp fmt b
        \<le> of_int (round_half_even (b / ulp fmt b)) * ulp fmt b"
      by (rule scaled_le)
    then show ?thesis
      using round_to_pos[OF a, of fmt] round_to_pos[OF b, of fmt] u by simp
  next
    case False
    then have lt: "expo fmt a + 1 \<le> expo fmt b" using ee by simp
    then have n: "emin fmt \<le> ilog2 b" and eb: "expo fmt b = ilog2 b"
      using a b by (auto simp: expo_def)
    have "round_to fmt a \<le> 2 powi (expo fmt a + 1)" by (rule round_to_upper_expo[OF a p])
    also have "\<dots> \<le> 2 powi (ilog2 b)"
      using lt eb by (intro power_int_increasing) simp_all
    also have "\<dots> \<le> round_to fmt b" by (rule round_to_lower[OF b p n])
    finally show ?thesis .
  qed
qed

lemma round_to_ge_1:
  assumes q: "1 \<le> q" and p: "1 \<le> precision fmt" and m: "emin fmt \<le> 0"
  shows "1 \<le> round_to fmt q"
proof -
  have q0: "0 < q" using q by simp
  have l: "0 \<le> ilog2 q" using q by (intro ilog2_ge[OF q0]) simp
  then have "(2::rat) powi 0 \<le> 2 powi (ilog2 q)" by (intro power_int_increasing) simp_all
  also have "\<dots> \<le> round_to fmt q"
    using l m by (intro round_to_lower[OF q0 p]) simp
  finally show ?thesis by simp
qed

lemma round_to_nonneg:
  assumes "0 \<le> q" "1 \<le> precision fmt"
  shows "0 \<le> round_to fmt q"
proof (cases "q = 0")
  case True
  then show ?thesis by (simp add: round_to_def)
next
  case False
  then have q: "0 < q" using assms by simp
  have "0 \<le> q / ulp fmt q" using q ulp_pos[of fmt q] by simp
  then have "0 \<le> round_half_even (q / ulp fmt q)"
    using round_half_even_ge[of 0 "q / ulp fmt q"] by simp
  then show ?thesis using round_to_pos[OF q, of fmt] ulp_pos[of fmt q] by simp
qed

text \<open>An integer below \<open>2^precision\<close> is a number of the format.\<close>

lemma round_to_exact_int:
  assumes x: "0 < x" "x < 2 ^ precision fmt" and p: "1 \<le> precision fmt" and m: "emin fmt \<le> 0"
  shows "round_to fmt (of_int x) = of_int x"
proof -
  let ?q = "rat_of_int x"
  have q: "0 < ?q" using x by simp
  have "1 \<le> ?q" using x by simp
  then have l: "0 \<le> ilog2 ?q" by (intro ilog2_ge[OF q]) simp
  have "?q < of_int (2 ^ precision fmt)" using x(2) by (simp only: of_int_less_iff)
  then have "?q < 2 powi (int (precision fmt))" by simp
  then have h: "ilog2 ?q < int (precision fmt)" by (rule ilog2_less[OF q])
  have e: "expo fmt ?q = ilog2 ?q" using l m q by (simp add: expo_def)
  define d where "d = nat (int (precision fmt) - 1 - ilog2 ?q)"
  have "ulp fmt ?q = 2 powi (- int d)"
    using h e by (simp add: ulp_def d_def)
  then have u: "ulp fmt ?q = 1 / 2 ^ d"
    by (simp add: power_int_minus_divide)
  then have "?q / ulp fmt ?q = of_int (x * 2 ^ d)" by simp
  then have "round_half_even (?q / ulp fmt ?q) = x * 2 ^ d"
    by (simp only: round_half_even_of_int)
  then show ?thesis using round_to_pos[OF q, of fmt] u by simp
qed

section \<open>fileReader: properties\<close>

lemma round_to_abs:
  assumes "1 \<le> precision fmt"
  shows "\<bar>round_to fmt q\<bar> = round_to fmt \<bar>q\<bar>"
proof (cases "0 \<le> q")
  case True
  then show ?thesis using round_to_nonneg[OF True assms] by simp
next
  case False
  then have "0 \<le> - q" by simp
  then have "0 \<le> round_to fmt (- q)" using assms by (rule round_to_nonneg)
  then show ?thesis using False by (simp add: round_to_minus)
qed

lemma round_to_abs_upper:
  assumes p: "1 \<le> precision fmt" and k: "\<bar>q\<bar> \<le> 2 powi k" "emin fmt \<le> k"
  shows "\<bar>round_to fmt q\<bar> \<le> 2 powi k"
proof (cases "q = 0")
  case True
  then show ?thesis by (simp add: round_to_def)
next
  case False
  then have "0 < \<bar>q\<bar>" by simp
  then have "round_to fmt \<bar>q\<bar> \<le> 2 powi k" using p k by (rule round_to_upper)
  then show ?thesis using round_to_abs[OF p, of q] by simp
qed

lemma fl_finite:
  assumes p: "1 \<le> precision fmt" and k: "\<bar>q\<bar> \<le> 2 powi k" "emin fmt \<le> k" "k \<le> emax fmt"
  shows "fl fmt q = Fin (round_to fmt q)"
proof -
  have "\<bar>round_to fmt q\<bar> \<le> 2 powi k" using p k(1,2) by (rule round_to_abs_upper)
  also have "(2::rat) powi k < 2 powi (emax fmt + 1)"
    using k(3) by (intro power_int_strict_increasing) simp_all
  finally show ?thesis by (simp add: fl_def Let_def)
qed

lemma fl_ge_1:
  assumes q: "1 \<le> q" and p: "1 \<le> precision fmt" and m: "emin fmt \<le> 0" and u: "u < 1"
  shows "fgt (fl fmt q) (Fin u)"
proof -
  have "1 \<le> round_to fmt q" using q p m by (rule round_to_ge_1)
  then show ?thesis using u by (simp add: fl_def Let_def)
qed

lemma float32_of_int64:
  "float_of_int binary32 (sint (w :: 64 word)) = Fin (round_to binary32 (of_int (sint w)))"
proof -
  have "- (2 ^ 63) \<le> sint w" "sint w < 2 ^ 63"
    using sint_ge[of w] sint_lt[of w] by simp_all
  then have "\<bar>sint w\<bar> \<le> 2 ^ 63" by simp
  then have "rat_of_int \<bar>sint w\<bar> \<le> of_int (2 ^ 63)" by (simp only: of_int_le_iff)
  then have "\<bar>rat_of_int (sint w)\<bar> \<le> 2 powi 63" by simp
  then show ?thesis
    unfolding float_of_int_def by (intro fl_finite[where k = 63]) (simp_all add: binary32_def)
qed

lemma float32_of_int64_bound:
  "\<bar>round_to binary32 (of_int (sint (w :: 64 word)))\<bar> \<le> 2 powi 63"
proof -
  have "- (2 ^ 63) \<le> sint w" "sint w < 2 ^ 63"
    using sint_ge[of w] sint_lt[of w] by simp_all
  then have "\<bar>sint w\<bar> \<le> 2 ^ 63" by simp
  then have "rat_of_int \<bar>sint w\<bar> \<le> of_int (2 ^ 63)" by (simp only: of_int_le_iff)
  then have "\<bar>rat_of_int (sint w)\<bar> \<le> 2 powi 63" by simp
  then show ?thesis
    by (intro round_to_abs_upper[where k = 63]) (simp_all add: binary32_def)
qed

lemma float32_of_int64_nonzero:
  assumes "(w :: 64 word) \<noteq> 0"
  shows "1 \<le> \<bar>round_to binary32 (of_int (sint w))\<bar>"
proof -
  have "sint w \<noteq> 0" using assms by (simp add: signed_eq_0_iff)
  then have "1 \<le> \<bar>sint w\<bar>" by simp
  then have "rat_of_int 1 \<le> of_int \<bar>sint w\<bar>" by (simp only: of_int_le_iff)
  then have "1 \<le> \<bar>rat_of_int (sint w)\<bar>" by simp
  then have "1 \<le> round_to binary32 \<bar>rat_of_int (sint w)\<bar>"
    by (intro round_to_ge_1) (simp_all add: binary32_def)
  then show ?thesis by (simp add: round_to_abs binary32_def)
qed

lemma float32_of_int64_pos:
  assumes "0 < sint (w :: 64 word)"
  shows "0 < round_to binary32 (of_int (sint w))"
proof -
  have "rat_of_int 1 \<le> of_int (sint w)" using assms by (simp only: of_int_le_iff)
  then have "1 \<le> round_to binary32 (rat_of_int (sint w))"
    by (intro round_to_ge_1) (simp_all add: binary32_def)
  then show ?thesis by simp
qed

text \<open>
  C10. \<open>ReadFraction\<close> returns a finite number for every \<open>fileReader\<close>. When the
  recorded total is 0 it returns 0 without dividing. Otherwise it returns the \<open>float32\<close>
  quotient of the bytes read by the total, both converted to \<open>float32\<close>, and the
  divisor of that division is a finite number other than zero (positive when the total
  is): no division by zero takes place.
\<close>

theorem ReadFraction_total:
  "(fr_total f = 0 \<longrightarrow> ReadFraction f = Fin 0)
   \<and> (fr_total f \<noteq> 0 \<longrightarrow>
        (\<exists>a d. float_of_int binary32 (sint (bc_n (fr_counter f))) = Fin a
              \<and> float_of_int binary32 (sint (fr_total f)) = Fin d
              \<and> d \<noteq> 0 \<and> (0 < sint (fr_total f) \<longrightarrow> 0 < d)
              \<and> ReadFraction f = fl binary32 (a / d)))
   \<and> (\<exists>r. ReadFraction f = Fin r)"
proof -
  define a where "a = round_to binary32 (of_int (sint (bc_n (fr_counter f))))"
  define d where "d = round_to binary32 (of_int (sint (fr_total f)))"
  have fa: "float_of_int binary32 (sint (bc_n (fr_counter f))) = Fin a"
    unfolding a_def by (rule float32_of_int64)
  have fd: "float_of_int binary32 (sint (fr_total f)) = Fin d"
    unfolding d_def by (rule float32_of_int64)
  have ab: "\<bar>a\<bar> \<le> 2 powi 63" unfolding a_def by (rule float32_of_int64_bound)
  have zero: "fr_total f = 0 \<longrightarrow> ReadFraction f = Fin 0"
    by (simp add: ReadFraction_def)
  have nz: "fr_total f \<noteq> 0 \<longrightarrow> d \<noteq> 0 \<and> 1 \<le> \<bar>d\<bar> \<and> ReadFraction f = fl binary32 (a / d)"
  proof
    assume t: "fr_total f \<noteq> 0"
    have d1: "1 \<le> \<bar>d\<bar>" unfolding d_def using t by (rule float32_of_int64_nonzero)
    then have d0: "d \<noteq> 0" by auto
    show "d \<noteq> 0 \<and> 1 \<le> \<bar>d\<bar> \<and> ReadFraction f = fl binary32 (a / d)"
      using t d0 d1 fa fd by (simp add: ReadFraction_def)
  qed
  have pos: "0 < sint (fr_total f) \<longrightarrow> 0 < d"
    unfolding d_def using float32_of_int64_pos by blast
  have fin: "\<exists>r. ReadFraction f = Fin r"
  proof (cases "fr_total f = 0")
    case True
    then show ?thesis using zero by blast
  next
    case False
    then have d: "1 \<le> \<bar>d\<bar>" and r: "ReadFraction f = fl binary32 (a / d)" using nz by auto
    have "\<bar>a / d\<bar> = \<bar>a\<bar> / \<bar>d\<bar>" by simp
    also have "\<dots> \<le> \<bar>a\<bar> / 1" using d by (intro divide_left_mono) simp_all
    also have "\<dots> \<le> 2 powi 63" using ab by simp
    finally have "fl binary32 (a / d) = Fin (round_to binary32 (a / d))"
      by (intro fl_finite[where k = 63]) (simp_all add: binary32_def)
    then show ?thesis using r by simp
  qed
  show ?thesis using zero nz pos fin fa fd by blast
qed

text \<open>A reader of a file of unknown size, and one that has read 50 bytes of 200.\<close>

theorem ReadFraction_total_witness:
  "ReadFraction \<lparr>fr_total = 0, fr_counter = \<lparr>bc_n = 7\<rparr>\<rparr> = Fin 0
   \<and> ReadFraction \<lparr>fr_total = 200, fr_counter = \<lparr>bc_n = 50\<rparr>\<rparr> = fl binary32 (50 / 200)
   \<and> ReadFraction \<lparr>fr_total = 200, fr_counter = \<lparr>bc_n = 50\<rparr>\<rparr> = Fin (1 / 4)"
proof -
  let ?f = "\<lparr>fr_total = 200, fr_counter = \<lparr>bc_n = 50\<rparr>\<rparr>"
  have a: "float_of_int binary32 (sint (50 :: 64 word)) = Fin 50"
    by code_simp
  have d: "float_of_int binary32 (sint (200 :: 64 word)) = Fin 200"
    by code_simp
  have q: "fl binary32 (50 / 200) = Fin (1 / 4)"
    by code_simp
  have 1: "ReadFraction \<lparr>fr_total = 0, fr_counter = \<lparr>bc_n = 7\<rparr>\<rparr> = Fin 0"
    using ReadFraction_total[of "\<lparr>fr_total = 0, fr_counter = \<lparr>bc_n = 7\<rparr>\<rparr>"] by simp
  have 2: "ReadFraction ?f = fl binary32 (50 / 200)"
    using ReadFraction_total[of ?f] a d by simp
  show ?thesis using 1 2 q by simp
qed

section \<open>The sampling function: properties\<close>

lemma float64_of_small_int:
  assumes "0 \<le> x" "x < 2 ^ 53"
  shows "float_of_int binary64 x = Fin (of_int x)"
proof (cases "x = 0")
  case True
  then show ?thesis by (simp add: float_of_int_def fl_def round_to_def not_le)
next
  case False
  then have x: "0 < x" using assms by simp
  have r: "round_to binary64 (of_int x) = of_int x"
    using x assms(2) by (intro round_to_exact_int) (simp_all add: binary64_def)
  have "rat_of_int x < of_int (2 ^ 53)" using assms(2) by (simp only: of_int_less_iff)
  then have "\<bar>rat_of_int x\<bar> \<le> 2 powi 53" using x by simp
  then have "fl binary64 (of_int x) = Fin (round_to binary64 (of_int x))"
    by (intro fl_finite[where k = 53]) (simp_all add: binary64_def)
  then show ?thesis using r by (simp add: float_of_int_def)
qed

lemma sampleSize_exact:
  assumes "0 < sint (SampleSize :: 32 word)"
  shows "float_of_int binary64 (sint SampleSize) = Fin (of_int (sint SampleSize))"
proof -
  have "sint SampleSize < 2 ^ 31" using sint_lt[of SampleSize] by simp
  then have "sint SampleSize < 2 ^ 53" by simp
  then show ?thesis using assms by (intro float64_of_small_int) simp_all
qed

lemma sample_fst:
  "fst (sample s kv) =
     fgt (fdiv binary64 (float_of_int binary64 (int (length (Key kv) + length (RawBytes kv))))
                        (sampleSize s))
         (Fin (draws (rnd s) (drawn (rnd s))))"
  by (simp add: sample_def Float64_def Let_def)

lemma sample_rounded_quotient:
  assumes ss: "0 < sint (SampleSize :: 32 word)"
    and sr: "sampleSize s = float_of_int binary64 (sint SampleSize)"
    and sz: "int (length (Key kv) + length (RawBytes kv)) < 2 ^ 53"
  shows "fst (sample s kv) \<longleftrightarrow>
           draws (rnd s) (drawn (rnd s))
             < round_to binary64 (of_int (int (length (Key kv) + length (RawBytes kv)))
                                  / of_int (sint SampleSize))"
proof -
  define zq where "zq = rat_of_int (int (length (Key kv) + length (RawBytes kv)))"
  define sq where "sq = rat_of_int (sint SampleSize)"
  have a: "float_of_int binary64 (int (length (Key kv) + length (RawBytes kv))) = Fin zq"
    unfolding zq_def using sz by (intro float64_of_small_int) simp_all
  have b: "sampleSize s = Fin sq"
    unfolding sq_def using sr sampleSize_exact[OF ss] by simp
  have "1 \<le> sint SampleSize" using ss by linarith
  then have "rat_of_int 1 \<le> rat_of_int (sint SampleSize)" by (simp only: of_int_le_iff)
  then have s1: "1 \<le> sq" unfolding sq_def by (simp only: of_int_1)
  have "rat_of_int (int (length (Key kv) + length (RawBytes kv))) < of_int (2 ^ 53)"
    using sz by (simp only: of_int_less_iff)
  then have z53: "zq \<le> 2 powi 53" unfolding zq_def by simp
  have z0: "0 \<le> zq" unfolding zq_def by simp
  have "0 \<le> sq" using s1 by linarith
  then have "0 \<le> zq / sq" by (rule divide_nonneg_nonneg[OF z0])
  then have "\<bar>zq / sq\<bar> = zq / sq" by (rule abs_of_nonneg)
  also have "\<dots> \<le> zq / 1" using s1 z0 by (intro divide_left_mono) simp_all
  also have "\<dots> \<le> 2 powi 53" using z53 by simp
  finally have f: "fl binary64 (zq / sq) = Fin (round_to binary64 (zq / sq))"
    by (intro fl_finite[where k = 53]) (simp_all add: binary64_def)
  have "fst (sample s kv) = fgt (fdiv binary64 (Fin zq) (Fin sq))
                                (Fin (draws (rnd s) (drawn (rnd s))))"
    by (simp only: sample_fst a b)
  also have "\<dots> = (draws (rnd s) (drawn (rnd s)) < round_to binary64 (zq / sq))"
    using s1 f by simp
  finally show ?thesis unfolding zq_def sq_def .
qed

lemma sample_large:
  assumes ss: "0 < sint (SampleSize :: 32 word)"
    and sr: "sampleSize s = float_of_int binary64 (sint SampleSize)"
    and u: "draws (rnd s) (drawn (rnd s)) < 1"
    and sz: "sint SampleSize \<le> int (length (Key kv) + length (RawBytes kv))"
  shows "fst (sample s kv)"
proof -
  define zq where "zq = rat_of_int (int (length (Key kv) + length (RawBytes kv)))"
  define sq where "sq = rat_of_int (sint SampleSize)"
  define r where "r = round_to binary64 zq"
  have b: "sampleSize s = Fin sq"
    unfolding sq_def using sr sampleSize_exact[OF ss] by simp
  have s0: "0 < sq" unfolding sq_def using ss by (simp only: of_int_0_less_iff)
  have "sint SampleSize < 2 ^ 31" using sint_lt[of SampleSize] by simp
  then have "sint SampleSize < 2 ^ precision binary64" by (simp add: binary64_def)
  then have e: "round_to binary64 sq = sq"
    unfolding sq_def using ss by (intro round_to_exact_int) (simp_all add: binary64_def)
  have "sq \<le> zq" unfolding sq_def zq_def using sz by (simp only: of_int_le_iff)
  then have "round_to binary64 sq \<le> r"
    unfolding r_def using s0 by (intro round_to_mono) (simp_all add: binary64_def)
  then have r: "sq \<le> r" using e by simp
  then have r0: "0 < r" using s0 by simp
  have fz: "float_of_int binary64 (int (length (Key kv) + length (RawBytes kv))) = fl binary64 zq"
    by (simp only: float_of_int_def zq_def)
  have s: "fst (sample s kv) = fgt (fdiv binary64 (fl binary64 zq) (Fin sq))
                                (Fin (draws (rnd s) (drawn (rnd s))))"
    by (simp only: sample_fst b fz)
  show ?thesis
  proof (cases "2 powi (emax binary64 + 1) \<le> \<bar>r\<bar>")
    case True
    then have "fl binary64 zq = PInf"
      using r0 by (simp add: fl_def Let_def r_def [symmetric])
    then show ?thesis using s s0 by simp
  next
    case False
    then have f: "fl binary64 zq = Fin r"
      by (simp add: fl_def Let_def r_def [symmetric])
    have "1 \<le> r / sq" using r s0 by (simp add: pos_le_divide_eq)
    then have "fgt (fl binary64 (r / sq)) (Fin (draws (rnd s) (drawn (rnd s))))"
      using u by (intro fl_ge_1) (simp_all add: binary64_def)
    then show ?thesis using s f s0 by simp
  qed
qed

lemma emit_kv_sampled:
  assumes "\<not> SpanGroup_Contains (ContainsKey deps) completedSpans (Key kv)"
    and "\<not> sampleAll" and "\<not> IsDescriptorKey deps (Key kv)" and "fn st = Some s"
  shows "pushed (snd (emit_kv deps sampleAll completedSpans st kv)) =
           (if fst (sample s kv) then pushed st @ [(Key kv, [])] else pushed st)"
  using assms
  by (auto simp: emit_kv_def push_row_def Let_def split: prod.splits)

text \<open>
  C7. Let \<open>SampleSize\<close> be positive and \<open>s\<close> the sampler that \<open>emitKvs\<close> builds
  from it. For a KV that is neither in a completed span nor required, \<open>emitKvs\<close>
  pushes the row of the key and an empty value exactly when \<open>sample\<close> accepts the KV,
  and \<open>sample\<close> accepts it exactly when the \<open>float64\<close> quotient of
  \<open>len(key) + len(value)\<close> by \<open>SampleSize\<close> is greater than the number drawn; for
  sizes below \<open>2^53\<close> that quotient is the exact quotient rounded to \<open>float64\<close>.
  A KV with \<open>len(key) + len(value) \<ge> SampleSize\<close> is accepted, and its row pushed,
  whatever number below 1 is drawn.
\<close>

theorem sample_accepts:
  assumes ss: "0 < sint (SampleSize :: 32 word)"
    and sr: "sampleSize s = float_of_int binary64 (sint SampleSize)"
    and nr: "\<not> SpanGroup_Contains (ContainsKey deps) completedSpans (Key kv)"
            "\<not> IsDescriptorKey deps (Key kv)"
    and st: "fn st = Some s"
  shows "(pushed (snd (emit_kv deps False completedSpans st kv)) =
            (if fst (sample s kv) then pushed st @ [(Key kv, [])] else pushed st))
       \<and> (fst (sample s kv) \<longleftrightarrow>
            fgt (fdiv binary64
                   (float_of_int binary64 (int (length (Key kv) + length (RawBytes kv))))
                   (float_of_int binary64 (sint SampleSize)))
                (Fin (draws (rnd s) (drawn (rnd s)))))
       \<and> (int (length (Key kv) + length (RawBytes kv)) < 2 ^ 53 \<longrightarrow>
            (fst (sample s kv) \<longleftrightarrow>
               draws (rnd s) (drawn (rnd s))
                 < round_to binary64 (of_int (int (length (Key kv) + length (RawBytes kv)))
                                      / of_int (sint SampleSize))))
       \<and> (sint SampleSize \<le> int (length (Key kv) + length (RawBytes kv))
            \<and> draws (rnd s) (drawn (rnd s)) < 1 \<longrightarrow>
            fst (sample s kv)
            \<and> pushed (snd (emit_kv deps False completedSpans st kv)) = pushed st @ [(Key kv, [])])"
proof -
  have 1: "pushed (snd (emit_kv deps False completedSpans st kv)) =
            (if fst (sample s kv) then pushed st @ [(Key kv, [])] else pushed st)"
    using nr st by (intro emit_kv_sampled) simp_all
  have 2: "fst (sample s kv) \<longleftrightarrow>
            fgt (fdiv binary64
                   (float_of_int binary64 (int (length (Key kv) + length (RawBytes kv))))
                   (float_of_int binary64 (sint SampleSize)))
                (Fin (draws (rnd s) (drawn (rnd s))))"
    using sr by (simp add: sample_fst)
  have 3: "int (length (Key kv) + length (RawBytes kv)) < 2 ^ 53 \<longrightarrow>
            (fst (sample s kv) \<longleftrightarrow>
               draws (rnd s) (drawn (rnd s))
                 < round_to binary64 (of_int (int (length (Key kv) + length (RawBytes kv)))
                                      / of_int (sint SampleSize)))"
    using sample_rounded_quotient[OF ss sr] by blast
  have 4: "sint SampleSize \<le> int (length (Key kv) + length (RawBytes kv))
            \<and> draws (rnd s) (drawn (rnd s)) < 1 \<longrightarrow> fst (sample s kv)"
    using sample_large[OF ss sr] by blast
  show ?thesis using 1 2 3 4 by simp
qed


text \<open>
  With \<open>SampleSize = 4\<close> and the number 1/2 drawn: a KV of 6 bytes is accepted, a KV of
  1 byte (probability 1/4) is not.
\<close>

theorem sample_accepts_witness:
  "fst (sample \<lparr>rnd = \<lparr>draws = (\<lambda>i. 1 / 2), drawn = 0\<rparr>,
                sampleSize = float_of_int binary64 (sint (4 :: 32 word))\<rparr>
          \<lparr>Key = ''52ab'', RawBytes = ''xy''\<rparr>)
   \<and> pushed (snd (emit_kv (ex_emit [] 10) False []
         \<lparr>pushed = [], fn = Some \<lparr>rnd = \<lparr>draws = (\<lambda>i. 1 / 2), drawn = 0\<rparr>,
                                  sampleSize = float_of_int binary64 (sint (4 :: 32 word))\<rparr>\<rparr>
         \<lparr>Key = ''52ab'', RawBytes = ''xy''\<rparr>)) = [(''52ab'', [])]
   \<and> \<not> fst (sample \<lparr>rnd = \<lparr>draws = (\<lambda>i. 1 / 2), drawn = 0\<rparr>,
                sampleSize = float_of_int binary64 (sint (4 :: 32 word))\<rparr>
          \<lparr>Key = ''5'', RawBytes = []\<rparr>)
   \<and> pushed (snd (emit_kv (ex_emit [] 10) False []
         \<lparr>pushed = [], fn = Some \<lparr>rnd = \<lparr>draws = (\<lambda>i. 1 / 2), drawn = 0\<rparr>,
                                  sampleSize = float_of_int binary64 (sint (4 :: 32 word))\<rparr>\<rparr>
         \<lparr>Key = ''5'', RawBytes = []\<rparr>)) = []"
proof -
  let ?s = "\<lparr>rnd = \<lparr>draws = (\<lambda>i::nat. 1 / 2 :: rat), drawn = 0\<rparr>,
             sampleSize = float_of_int binary64 (sint (4 :: 32 word))\<rparr>"
  let ?st = "\<lparr>pushed = [], fn = Some ?s\<rparr>"
  have h1: "0 < sint (4 :: 32 word)" by simp
  have h2: "sampleSize ?s = float_of_int binary64 (sint (4 :: 32 word))" by simp
  have h3: "\<not> SpanGroup_Contains (ContainsKey (ex_emit [] 10)) [] k" for k
    by (simp add: SpanGroup_Contains_def)
  have h4: "\<not> IsDescriptorKey (ex_emit [] 10) k" for k
    by (simp add: ex_emit_def)
  have h5: "fn ?st = Some ?s" by simp
  have q: "\<not> (1 / 2 < round_to binary64 (1 / 4))" by code_simp
  let ?big = "\<lparr>Key = ''52ab'', RawBytes = ''xy''\<rparr>"
  let ?small = "\<lparr>Key = ''5'', RawBytes = []\<rparr>"
  note B = sample_accepts[OF h1 h2 h3 h4 h5, of ?big]
  have pb: "sint (4 :: 32 word) \<le> int (length (Key ?big) + length (RawBytes ?big))
            \<and> draws (rnd ?s) (drawn (rnd ?s)) < 1"
    by simp
  have big: "fst (sample ?s ?big)
      \<and> pushed (snd (emit_kv (ex_emit [] 10) False [] ?st ?big)) = pushed ?st @ [(Key ?big, [])]"
    using B[THEN conjunct2, THEN conjunct2, THEN conjunct2, THEN mp, OF pb] .
  note S = sample_accepts[OF h1 h2 h3 h4 h5, of ?small]
  have ps: "int (length (Key ?small) + length (RawBytes ?small)) < 2 ^ 53" by simp
  have v: "rat_of_int (int (length (Key ?small) + length (RawBytes ?small)))
             / rat_of_int (sint (4 :: 32 word)) = 1 / 4"
    by simp
  have u: "draws (rnd ?s) (drawn (rnd ?s)) = 1 / 2" by simp
  have "fst (sample ?s ?small) \<longleftrightarrow> 1 / 2 < round_to binary64 (1 / 4)"
    using S[THEN conjunct2, THEN conjunct2, THEN conjunct1, THEN mp, OF ps]
    by (simp only: u v)
  then have n: "\<not> fst (sample ?s ?small)" using q by simp
  have small: "\<not> fst (sample ?s ?small)
      \<and> pushed (snd (emit_kv (ex_emit [] 10) False [] ?st ?small)) = pushed ?st"
    using S[THEN conjunct1] n by simp
  show ?thesis using big small by simp
qed

section \<open>The sampler and completed spans: properties\<close>

text \<open>The rows pushed only grow.\<close>

lemma push_row_pushed:
  "push_row deps st row = (r, st') \<Longrightarrow> pushed st' = pushed st @ [row]"
  by (auto simp: push_row_def Let_def split: if_splits)

lemma emit_kv_cases:
  assumes "emit_kv deps sampleAll spans st kv = (r, st')"
  shows "pushed st' = pushed st
       \<or> (\<not> SpanGroup_Contains (ContainsKey deps) spans (Key kv)
          \<and> (pushed st' = pushed st @ [(Key kv, RawBytes kv)]
             \<or> pushed st' = pushed st @ [(Key kv, [])]))"
  using assms
  by (auto simp: emit_kv_def Let_def split: if_splits option.splits prod.splits
           dest: push_row_pushed)

lemma emit_kv_outside:
  assumes "emit_kv deps sampleAll spans st kv = (r, st')"
    and "\<forall>row \<in> set (pushed st). \<not> SpanGroup_Contains (ContainsKey deps) spans (fst row)"
  shows "\<forall>row \<in> set (pushed st'). \<not> SpanGroup_Contains (ContainsKey deps) spans (fst row)"
  using emit_kv_cases[OF assms(1)] assms(2) by auto

lemma emit_kvs_outside:
  assumes "emit_kvs deps sampleAll spans st kvs = (r, st')"
    and "\<forall>row \<in> set (pushed st). \<not> SpanGroup_Contains (ContainsKey deps) spans (fst row)"
  shows "\<forall>row \<in> set (pushed st'). \<not> SpanGroup_Contains (ContainsKey deps) spans (fst row)"
  using assms
proof (induction kvs arbitrary: st)
  case Nil
  then show ?case by simp
next
  case (Cons kv kvs)
  obtain r1 st1 where k: "emit_kv deps sampleAll spans st kv = (r1, st1)"
    by (cases "emit_kv deps sampleAll spans st kv")
  have o: "\<forall>row \<in> set (pushed st1). \<not> SpanGroup_Contains (ContainsKey deps) spans (fst row)"
    using emit_kv_outside[OF k Cons.prems(2)] .
  show ?case
  proof (cases r1)
    case None
    then have "emit_kvs deps sampleAll spans st1 kvs = (r, st')"
      using Cons.prems(1) k by simp
    then show ?thesis using Cons.IH o by blast
  next
    case (Some e)
    then have "st' = st1" using Cons.prems(1) k by simp
    then show ?thesis using o by simp
  qed
qed

lemma emit_batches_outside:
  assumes "emit_batches deps sampleAll spans st kvCh = (r, st')"
    and "\<forall>row \<in> set (pushed st). \<not> SpanGroup_Contains (ContainsKey deps) spans (fst row)"
  shows "\<forall>row \<in> set (pushed st'). \<not> SpanGroup_Contains (ContainsKey deps) spans (fst row)"
  using assms
proof (induction kvCh arbitrary: st)
  case Nil
  then show ?case by simp
next
  case (Cons b rest)
  obtain r1 st1 where k: "emit_kvs deps sampleAll spans st (KVs b) = (r1, st1)"
    by (cases "emit_kvs deps sampleAll spans st (KVs b)")
  have o: "\<forall>row \<in> set (pushed st1). \<not> SpanGroup_Contains (ContainsKey deps) spans (fst row)"
    using emit_kvs_outside[OF k Cons.prems(2)] .
  show ?case
  proof (cases r1)
    case None
    then have "emit_batches deps sampleAll spans st1 rest = (r, st')"
      using Cons.prems(1) k by simp
    then show ?thesis using Cons.IH o by blast
  next
    case (Some e)
    then have "st' = st1" using Cons.prems(1) k by simp
    then show ?thesis using o by simp
  qed
qed

text \<open>A KV in a completed span leaves the state as it is: the run is the run without it.\<close>

lemma emit_kv_completed:
  "SpanGroup_Contains (ContainsKey deps) spans (Key kv) \<Longrightarrow>
     emit_kv deps sampleAll spans st kv = (None, st)"
  by (simp add: emit_kv_def)

lemma emit_kvs_filter:
  "emit_kvs deps sampleAll spans st
      (filter (\<lambda>kv. \<not> SpanGroup_Contains (ContainsKey deps) spans (Key kv)) kvs)
   = emit_kvs deps sampleAll spans st kvs"
proof (induction kvs arbitrary: st)
  case Nil
  then show ?case by simp
next
  case (Cons kv kvs)
  show ?case
  proof (cases "SpanGroup_Contains (ContainsKey deps) spans (Key kv)")
    case True
    then show ?thesis using Cons.IH by (simp add: emit_kv_completed)
  next
    case False
    then show ?thesis using Cons.IH
      by (cases "emit_kv deps sampleAll spans st kv") (auto split: option.splits)
  qed
qed

lemma emit_batches_filter:
  "emit_batches deps sampleAll spans st (map (drop_completed deps spans) kvCh)
   = emit_batches deps sampleAll spans st kvCh"
proof (induction kvCh arbitrary: st)
  case Nil
  then show ?case by simp
next
  case (Cons b rest)
  have "KVs (drop_completed deps spans b)
      = filter (\<lambda>kv. \<not> SpanGroup_Contains (ContainsKey deps) spans (Key kv)) (KVs b)"
    by (simp add: drop_completed_def)
  then show ?case using Cons.IH
    by (simp add: emit_kvs_filter split: prod.splits option.splits)
qed

text \<open>
  C6. When the job's progress loads, no row that \<open>emitKvs\<close> pushes has a key in a
  completed span; the run pushes the same rows, returns the same error and leaves the
  same sampler state as the run on the batches without the KVs whose key is in a
  completed span; and the loop body does nothing for such a KV.
\<close>

theorem emitKvs_skips_completed:
  assumes "LoadJob deps = Inr progress" and "Details progress = Progress_Import details"
  shows "(\<forall>row \<in> set (pushed (snd (emitKvs deps SampleSize g kvCh))).
            \<not> SpanGroup_Contains (ContainsKey deps) (SpanProgress details) (fst row))
       \<and> emitKvs deps SampleSize g (map (drop_completed deps (SpanProgress details)) kvCh)
           = emitKvs deps SampleSize g kvCh
       \<and> (\<forall>st kv. SpanGroup_Contains (ContainsKey deps) (SpanProgress details) (Key kv) \<longrightarrow>
            emit_kv deps (SampleSize = 0) (SpanProgress details) st kv = (None, st))"
proof -
  let ?st = "\<lparr>pushed = [],
              fn = (if SampleSize = 0 then None
                    else Some \<lparr>rnd = g, sampleSize = float_of_int binary64 (sint SampleSize)\<rparr>)\<rparr>"
  have e: "emitKvs deps SampleSize g ch
      = emit_batches deps (SampleSize = 0) (SpanProgress details) ?st ch" for ch
    using assms by (simp add: emitKvs_def Let_def)
  obtain r st' where k: "emit_batches deps (SampleSize = 0) (SpanProgress details) ?st kvCh = (r, st')"
    by (cases "emit_batches deps (SampleSize = 0) (SpanProgress details) ?st kvCh")
  have "\<forall>row \<in> set (pushed st').
          \<not> SpanGroup_Contains (ContainsKey deps) (SpanProgress details) (fst row)"
    by (rule emit_batches_outside[OF k]) simp
  then have 1: "\<forall>row \<in> set (pushed (snd (emitKvs deps SampleSize g kvCh))).
            \<not> SpanGroup_Contains (ContainsKey deps) (SpanProgress details) (fst row)"
    using e k by simp
  have 2: "emitKvs deps SampleSize g (map (drop_completed deps (SpanProgress details)) kvCh)
           = emitKvs deps SampleSize g kvCh"
    by (simp only: e emit_batches_filter)
  show ?thesis using 1 2 emit_kv_completed by blast
qed


text \<open>
  With the keys starting with \<open>A\<close> completed, of the KVs \<open>A1\<close> and \<open>B1\<close> only
  \<open>B1\<close> is pushed.
\<close>

theorem emitKvs_skips_completed_witness:
  "pushed (snd (emitKvs (ex_emit [\<lparr>StartKey = ''A'', EndKey = ''B''\<rparr>] 10) 0 ex_rand
      [\<lparr>Source = 0, LastRow = 2, Progress = 0,
        KVs = [\<lparr>Key = ''A1'', RawBytes = ''x''\<rparr>, \<lparr>Key = ''B1'', RawBytes = ''y''\<rparr>]\<rparr>]))
     = [(''B1'', ''y'')]
   \<and> \<not> SpanGroup_Contains (ContainsKey (ex_emit [\<lparr>StartKey = ''A'', EndKey = ''B''\<rparr>] 10))
          [\<lparr>StartKey = ''A'', EndKey = ''B''\<rparr>] ''B1''
   \<and> SpanGroup_Contains (ContainsKey (ex_emit [\<lparr>StartKey = ''A'', EndKey = ''B''\<rparr>] 10))
          [\<lparr>StartKey = ''A'', EndKey = ''B''\<rparr>] ''A1''
   \<and> emitKvs (ex_emit [\<lparr>StartKey = ''A'', EndKey = ''B''\<rparr>] 10) 0 ex_rand
        [\<lparr>Source = 0, LastRow = 2, Progress = 0, KVs = [\<lparr>Key = ''B1'', RawBytes = ''y''\<rparr>]\<rparr>]
      = emitKvs (ex_emit [\<lparr>StartKey = ''A'', EndKey = ''B''\<rparr>] 10) 0 ex_rand
        [\<lparr>Source = 0, LastRow = 2, Progress = 0,
          KVs = [\<lparr>Key = ''A1'', RawBytes = ''x''\<rparr>, \<lparr>Key = ''B1'', RawBytes = ''y''\<rparr>]\<rparr>]"
proof -
  let ?spans = "[\<lparr>StartKey = ''A'', EndKey = ''B''\<rparr>]"
  let ?deps = "ex_emit ?spans 10"
  let ?ch = "[\<lparr>Source = 0, LastRow = 2, Progress = 0,
               KVs = [\<lparr>Key = ''A1'', RawBytes = ''x''\<rparr>, \<lparr>Key = ''B1'', RawBytes = ''y''\<rparr>]\<rparr>]"
  have h1: "LoadJob ?deps = Inr \<lparr>Details = Progress_Import \<lparr>SpanProgress = ?spans\<rparr>\<rparr>"
    by (simp add: ex_emit_def)
  have h2: "Details \<lparr>Details = Progress_Import \<lparr>SpanProgress = ?spans\<rparr>\<rparr>
              = Progress_Import \<lparr>SpanProgress = ?spans\<rparr>"
    by simp
  note T = emitKvs_skips_completed[OF h1 h2, of 0 ex_rand ?ch]
  have p: "pushed (snd (emitKvs ?deps 0 ex_rand ?ch)) = [(''B1'', ''y'')]"
    by (simp add: emitKvs_def ex_emit_def emit_kv_def push_row_def SpanGroup_Contains_def Let_def)
  have d: "map (drop_completed ?deps ?spans) ?ch
      = [\<lparr>Source = 0, LastRow = 2, Progress = 0, KVs = [\<lparr>Key = ''B1'', RawBytes = ''y''\<rparr>]\<rparr>]"
    by (simp add: drop_completed_def ex_emit_def SpanGroup_Contains_def)
  have c: "SpanGroup_Contains (ContainsKey ?deps) ?spans ''A1''"
    by (simp add: ex_emit_def SpanGroup_Contains_def)
  have 1: "\<not> SpanGroup_Contains (ContainsKey ?deps) ?spans ''B1''"
    using T[THEN conjunct1] p by simp
  have 2: "emitKvs ?deps 0 ex_rand
        [\<lparr>Source = 0, LastRow = 2, Progress = 0, KVs = [\<lparr>Key = ''B1'', RawBytes = ''y''\<rparr>]\<rparr>]
      = emitKvs ?deps 0 ex_rand ?ch"
    using T[THEN conjunct2, THEN conjunct1] d by simp
  show ?thesis using p 1 c 2 by simp
qed

section \<open>The sampler without sampling: properties\<close>

lemma emit_kv_all:
  "emit_kv deps True [] st kv = push_row deps st (full_row kv)"
  by (simp add: emit_kv_def SpanGroup_Contains_def full_row_def)

lemma emit_kvs_all:
  "emit_kvs deps True [] st kvs = (None, st') \<Longrightarrow>
     pushed st' = pushed st @ map full_row kvs"
proof (induction kvs arbitrary: st)
  case Nil
  then show ?case by simp
next
  case (Cons kv kvs)
  obtain r1 st1 where k: "push_row deps st (full_row kv) = (r1, st1)"
    by (cases "push_row deps st (full_row kv)")
  then have r1: "r1 = None" and rest: "emit_kvs deps True [] st1 kvs = (None, st')"
    using Cons.prems by (auto simp: emit_kv_all split: option.splits)
  have "pushed st1 = pushed st @ [full_row kv]" using k by (rule push_row_pushed)
  then show ?case using Cons.IH[OF rest] by simp
qed

lemma emit_batches_all:
  "emit_batches deps True [] st kvCh = (None, st') \<Longrightarrow>
     pushed st' = pushed st @ map full_row (concat (map KVs kvCh))"
proof (induction kvCh arbitrary: st)
  case Nil
  then show ?case by simp
next
  case (Cons b rest)
  obtain r1 st1 where k: "emit_kvs deps True [] st (KVs b) = (r1, st1)"
    by (cases "emit_kvs deps True [] st (KVs b)")
  then have r1: "r1 = None" and r: "emit_batches deps True [] st1 rest = (None, st')"
    using Cons.prems by (auto split: option.splits)
  have "pushed st1 = pushed st @ map full_row (KVs b)"
    using k r1 by (intro emit_kvs_all) simp
  then show ?case using Cons.IH[OF r] by simp
qed

lemma emit_kvs_need_more:
  assumes "\<forall>rows. Push deps rows = NeedMoreRows"
  shows "fst (emit_kvs deps True [] st kvs) = None"
proof (induction kvs arbitrary: st)
  case Nil
  then show ?case by simp
next
  case (Cons kv kvs)
  have "fst (push_row deps st (full_row kv)) = None"
    using assms by (simp add: push_row_def Let_def)
  then show ?case using Cons.IH
    by (cases "push_row deps st (full_row kv)") (simp add: emit_kv_all)
qed

lemma emit_batches_need_more:
  assumes "\<forall>rows. Push deps rows = NeedMoreRows"
  shows "fst (emit_batches deps True [] st kvCh) = None"
proof (induction kvCh arbitrary: st)
  case Nil
  then show ?case by simp
next
  case (Cons b rest)
  have "fst (emit_kvs deps True [] st (KVs b)) = None"
    using assms by (rule emit_kvs_need_more)
  then show ?case using Cons.IH
    by (cases "emit_kvs deps True [] st (KVs b)") simp
qed

text \<open>
  C8, as stated, fails when the consumer stops asking for rows: with \<open>SampleSize = 0\<close>
  and no completed span, a consumer that answers the first push with a status other than
  \<open>NeedMoreRows\<close> makes \<open>emitKvs\<close> return an error after the first KV of the batch,
  and the second KV is never pushed.
\<close>

theorem emitKvs_forwards_all_counterexample:
  "fst (emitKvs (ex_emit [] 1) 0 ex_rand
      [\<lparr>Source = 0, LastRow = 2, Progress = 0,
        KVs = [\<lparr>Key = ''A1'', RawBytes = ''x''\<rparr>, \<lparr>Key = ''B1'', RawBytes = ''y''\<rparr>]\<rparr>])
     = Some (Err ''unexpected closure of consumer'')
   \<and> pushed (snd (emitKvs (ex_emit [] 1) 0 ex_rand
      [\<lparr>Source = 0, LastRow = 2, Progress = 0,
        KVs = [\<lparr>Key = ''A1'', RawBytes = ''x''\<rparr>, \<lparr>Key = ''B1'', RawBytes = ''y''\<rparr>]\<rparr>]))
     = [(''A1'', ''x'')]
   \<and> mset (pushed (snd (emitKvs (ex_emit [] 1) 0 ex_rand
      [\<lparr>Source = 0, LastRow = 2, Progress = 0,
        KVs = [\<lparr>Key = ''A1'', RawBytes = ''x''\<rparr>, \<lparr>Key = ''B1'', RawBytes = ''y''\<rparr>]\<rparr>])))
     \<noteq> mset [(''A1'', ''x''), (''B1'', ''y'')]"
  by (simp add: emitKvs_def ex_emit_def emit_kv_def push_row_def SpanGroup_Contains_def Let_def)

text \<open>
  C8, amended. For a run of \<open>emitKvs\<close> with \<open>SampleSize = 0\<close> and an empty
  completed-span set that returns nil, the rows pushed are, in order, the rows carrying
  the full key and the full value of every KV received, so the multiset of rows pushed
  equals that of the KVs received. The run returns nil when the sink answers
  \<open>NeedMoreRows\<close> to every push.
\<close>

theorem emitKvs_forwards_all:
  assumes "LoadJob deps = Inr progress" and "Details progress = Progress_Import details"
    and "SpanProgress details = []"
  shows "(fst (emitKvs deps 0 g kvCh) = None \<longrightarrow>
            pushed (snd (emitKvs deps 0 g kvCh)) = map full_row (concat (map KVs kvCh))
            \<and> mset (pushed (snd (emitKvs deps 0 g kvCh)))
                = mset (map full_row (concat (map KVs kvCh))))
       \<and> ((\<forall>rows. Push deps rows = NeedMoreRows) \<longrightarrow> fst (emitKvs deps 0 g kvCh) = None)"
proof -
  let ?st = "\<lparr>pushed = [], fn = None\<rparr>"
  have e: "emitKvs deps 0 g kvCh = emit_batches deps True [] ?st kvCh"
    using assms by (simp add: emitKvs_def)
  have 1: "fst (emitKvs deps 0 g kvCh) = None \<longrightarrow>
            pushed (snd (emitKvs deps 0 g kvCh)) = map full_row (concat (map KVs kvCh))"
  proof
    assume "fst (emitKvs deps 0 g kvCh) = None"
    then have "emit_batches deps True [] ?st kvCh = (None, snd (emitKvs deps 0 g kvCh))"
      using e by (metis prod.collapse)
    then have "pushed (snd (emitKvs deps 0 g kvCh))
        = pushed ?st @ map full_row (concat (map KVs kvCh))"
      by (rule emit_batches_all)
    then show "pushed (snd (emitKvs deps 0 g kvCh)) = map full_row (concat (map KVs kvCh))"
      by simp
  qed
  have 2: "(\<forall>rows. Push deps rows = NeedMoreRows) \<longrightarrow> fst (emitKvs deps 0 g kvCh) = None"
    using e emit_batches_need_more by simp
  show ?thesis using 1 2 by simp
qed

text \<open>A consumer that takes both rows of a batch.\<close>

theorem emitKvs_forwards_all_witness:
  "fst (emitKvs (ex_emit [] 10) 0 ex_rand
      [\<lparr>Source = 0, LastRow = 2, Progress = 0,
        KVs = [\<lparr>Key = ''A1'', RawBytes = ''x''\<rparr>, \<lparr>Key = ''B1'', RawBytes = ''y''\<rparr>]\<rparr>]) = None
   \<and> pushed (snd (emitKvs (ex_emit [] 10) 0 ex_rand
      [\<lparr>Source = 0, LastRow = 2, Progress = 0,
        KVs = [\<lparr>Key = ''A1'', RawBytes = ''x''\<rparr>, \<lparr>Key = ''B1'', RawBytes = ''y''\<rparr>]\<rparr>]))
     = [(''A1'', ''x''), (''B1'', ''y'')]"
proof -
  let ?deps = "ex_emit [] 10"
  let ?ch = "[\<lparr>Source = 0, LastRow = 2, Progress = 0,
               KVs = [\<lparr>Key = ''A1'', RawBytes = ''x''\<rparr>, \<lparr>Key = ''B1'', RawBytes = ''y''\<rparr>]\<rparr>]"
  have h1: "LoadJob ?deps = Inr \<lparr>Details = Progress_Import \<lparr>SpanProgress = []\<rparr>\<rparr>"
    by (simp add: ex_emit_def)
  have h2: "Details \<lparr>Details = Progress_Import \<lparr>SpanProgress = []\<rparr>\<rparr>
              = Progress_Import \<lparr>SpanProgress = []\<rparr>"
    by simp
  have h3: "SpanProgress \<lparr>SpanProgress = []\<rparr> = []" by simp
  note T = emitKvs_forwards_all[OF h1 h2 h3, of ex_rand ?ch]
  have ok: "fst (emitKvs ?deps 0 ex_rand ?ch) = None"
    by (simp add: emitKvs_def ex_emit_def emit_kv_def push_row_def SpanGroup_Contains_def Let_def)
  have "pushed (snd (emitKvs ?deps 0 ex_rand ?ch)) = map full_row (concat (map KVs ?ch))"
    using T[THEN conjunct1, THEN mp, OF ok] by simp
  then show ?thesis using ok by (simp add: full_row_def)
qed

section \<open>The ingestor: routing by index\<close>

text \<open>The equations that evaluate a run on the example collaborators.\<close>

lemmas ingest_eval =
  ingestKvs_def ex_ingest_def ex_adder_def ex_decode_def ingest_kv_def adder_returned_def
  onFlush_def pkOnFlush_def idxOnFlush_def end_batch_def flush_adders_def offset_of_def
  wrapDuplicate_def duplicate_msg_def BulkOpSummary_Add_def Float32bits_def Let_def











section \<open>The ingestor: errors of the adders\<close>













section \<open>The ingestor: progress reports\<close>

lemma storeRows_good:
  assumes "storeRows is src dst = Inr dst'" "length dst = n" "length src = n"
  shows "length dst' = n \<and> (\<forall>j < n. dst' ! j = dst ! j \<or> dst' ! j = src ! j)"
  using assms
proof (induction "is" arbitrary: dst)
  case Nil
  then show ?case by simp
next
  case (Cons i rest)
  let ?d = "dst[unat i := src ! unat i]"
  have ok: "unat i < length dst \<and> unat i < length src"
    using Cons.prems(1) by (simp split: if_splits)
  then have r: "storeRows rest src ?d = Inr dst'" using Cons.prems(1) by simp
  have "length ?d = n" using Cons.prems(2) by simp
  then have ih: "length dst' = n \<and> (\<forall>j < n. dst' ! j = ?d ! j \<or> dst' ! j = src ! j)"
    using Cons.IH[OF r] Cons.prems(3) by blast
  have "\<forall>j < n. ?d ! j = dst ! j \<or> ?d ! j = src ! j"
    using Cons.prems(2) ok by (auto simp: nth_list_update)
  then show ?case using ih by metis
qed

lemma storeRows_below:
  assumes "storeRows is src dst = Inr dst'" "length dst = n" "length src = n"
    and "m \<longrightarrow> (\<forall>j < n. dst ! j \<le> src ! j)"
  shows "length dst' = n \<and> (m \<longrightarrow> (\<forall>j < n. dst' ! j \<le> src ! j))"
  using storeRows_good[OF assms(1-3)] assms(4) by (metis order_refl)

lemma pkOnFlush_good:
  assumes "pkOnFlush e arr = Inr arr'" "good m n arr"
  shows "good m n arr' \<and> writtenRow arr' = writtenRow arr"
proof -
  obtain pk where pk: "storeRows (writtenRow arr) (writtenRow arr) (pkFlushedRow arr) = Inr pk"
    using assms(1) by (auto simp: pkOnFlush_def split: sum.splits)
  have p: "length pk = n \<and> (m \<longrightarrow> (\<forall>j < n. pk ! j \<le> writtenRow arr ! j))"
    using storeRows_below[OF pk, of n m] assms(2) by (simp add: good_def)
  show ?thesis
  proof (cases e)
    case False
    then have "arr' = arr\<lparr>pkFlushedRow := pk\<rparr>"
      using assms(1) pk by (simp add: pkOnFlush_def)
    then show ?thesis using p assms(2) by (simp add: good_def)
  next
    case True
    then obtain idx where
      idx: "storeRows (writtenRow arr) (writtenRow arr) (idxFlushedRow arr) = Inr idx"
      and a: "arr' = arr\<lparr>pkFlushedRow := pk, idxFlushedRow := idx\<rparr>"
      using assms(1) pk by (auto simp: pkOnFlush_def Let_def split: sum.splits)
    have i: "length idx = n \<and> (m \<longrightarrow> (\<forall>j < n. idx ! j \<le> writtenRow arr ! j))"
      using storeRows_below[OF idx, of n m] assms(2) by (simp add: good_def)
    show ?thesis using a p i assms(2) by (simp add: good_def)
  qed
qed

lemma idxOnFlush_good:
  assumes "idxOnFlush arr = Inr arr'" "good m n arr"
  shows "good m n arr' \<and> writtenRow arr' = writtenRow arr"
proof -
  obtain idx where
    idx: "storeRows (writtenRow arr) (writtenRow arr) (idxFlushedRow arr) = Inr idx"
    and a: "arr' = arr\<lparr>idxFlushedRow := idx\<rparr>"
    using assms(1) by (auto simp: idxOnFlush_def split: sum.splits)
  have i: "length idx = n \<and> (m \<longrightarrow> (\<forall>j < n. idx ! j \<le> writtenRow arr ! j))"
    using storeRows_below[OF idx, of n m] assms(2) by (simp add: good_def)
  show ?thesis using a i assms(2) by (simp add: good_def)
qed

lemma onFlush_good:
  assumes "onFlush deps who st = Inr arr'" "good m n (arrays st)"
  shows "good m n arr' \<and> writtenRow arr' = writtenRow (arrays st)"
  using assms pkOnFlush_good idxOnFlush_good
  by (cases who) (auto simp: onFlush_def)

lemma adder_returned_inv:
  assumes "adder_returned deps who flushed err st = (r, st')" "ingest_inv m n st"
  shows "ingest_inv m n st' \<and> writtenRow (arrays st') = writtenRow (arrays st)"
proof (cases "flushed")
  case False
  then show ?thesis using assms
    by (auto simp: adder_returned_def Let_def ingest_inv_def all_good_def split: option.splits)
next
  case True
  show ?thesis
  proof (cases "onFlush deps who st")
    case (Inl p)
    then show ?thesis using assms True by (simp add: adder_returned_def)
  next
    case (Inr arr)
    have g: "good m n arr \<and> writtenRow arr = writtenRow (arrays st)"
      using onFlush_good[OF Inr, of m n] assms(2) by (simp add: ingest_inv_def)
    then show ?thesis using assms True Inr
      by (auto simp: adder_returned_def Let_def ingest_inv_def all_good_def split: option.splits)
  qed
qed

lemma ingest_kv_inv:
  assumes "ingest_kv deps st kv = (r, st')" "ingest_inv m n st"
  shows "ingest_inv m n st' \<and> writtenRow (arrays st') = writtenRow (arrays st)"
proof (cases "DecodeTableIDIndexID deps (Key kv)")
  case (Inl e)
  then show ?thesis using assms by (simp add: ingest_kv_def)
next
  case (Inr ti)
  obtain t i where ti: "ti = (t, i)" by (cases ti)
  show ?thesis
  proof (cases "i = 1")
    case True
    obtain a fl err where add: "Add (pkOps deps) (pkIndexAdder st) (Key kv) (RawBytes kv) = (a, fl, err)"
      by (cases "Add (pkOps deps) (pkIndexAdder st) (Key kv) (RawBytes kv)")
    let ?st = "st\<lparr>pkIndexAdder := a, events := events st @ [AddCalled PkAdder kv]\<rparr>"
    have r: "adder_returned deps PkAdder fl err ?st = (r, st')"
      using assms(1) Inr ti True add by (simp add: ingest_kv_def)
    have "ingest_inv m n ?st" using assms(2) by (auto simp: ingest_inv_def all_good_def)
    then show ?thesis using adder_returned_inv[OF r] by simp
  next
    case False
    obtain b fl err where add: "Add (idxOps deps) (indexAdder st) (Key kv) (RawBytes kv) = (b, fl, err)"
      by (cases "Add (idxOps deps) (indexAdder st) (Key kv) (RawBytes kv)")
    let ?st = "st\<lparr>indexAdder := b, events := events st @ [AddCalled IdxAdder kv]\<rparr>"
    have r: "adder_returned deps IdxAdder fl err ?st = (r, st')"
      using assms(1) Inr ti False add by (simp add: ingest_kv_def)
    have "ingest_inv m n ?st" using assms(2) by (auto simp: ingest_inv_def all_good_def)
    then show ?thesis using adder_returned_inv[OF r] by simp
  qed
qed

lemma ingest_kvs_inv:
  assumes "ingest_kvs deps st kvs = (r, st')" "ingest_inv m n st"
  shows "ingest_inv m n st' \<and> writtenRow (arrays st') = writtenRow (arrays st)"
  using assms
proof (induction kvs arbitrary: st)
  case Nil
  then show ?case by simp
next
  case (Cons kv kvs)
  obtain r1 st1 where k: "ingest_kv deps st kv = (r1, st1)"
    by (cases "ingest_kv deps st kv")
  have o: "ingest_inv m n st1 \<and> writtenRow (arrays st1) = writtenRow (arrays st)"
    using ingest_kv_inv[OF k Cons.prems(2)] .
  show ?case
  proof (cases r1)
    case None
    then have "ingest_kvs deps st1 kvs = (r, st')" using Cons.prems(1) k by simp
    then show ?thesis using Cons.IH o by metis
  next
    case (Some e)
    then have "st' = st1" using Cons.prems(1) k by simp
    then show ?thesis using o by simp
  qed
qed

lemma end_batch_inv:
  assumes "end_batch offsets b st = (r, st')" "ingest_inv m n st"
    and "m \<longrightarrow> offset_of offsets (Source b) < n \<longrightarrow>
           writtenRow (arrays st) ! offset_of offsets (Source b) \<le> LastRow b"
  shows "ingest_inv m n st'
       \<and> (r = None \<longrightarrow> writtenRow (arrays st')
             = (writtenRow (arrays st))[offset_of offsets (Source b) := LastRow b])"
proof (cases "offset_of offsets (Source b) < length (writtenRow (arrays st))
              \<and> offset_of offsets (Source b) < length (writtenFraction (arrays st))")
  case False
  then show ?thesis using assms(1,2) by (auto simp: end_batch_def Let_def)
next
  case True
  define off where "off = offset_of offsets (Source b)"
  define arr' where "arr' = (arrays st)\<lparr>writtenRow := (writtenRow (arrays st))[off := LastRow b],
      writtenFraction := (writtenFraction (arrays st))[off := Float32bits (Progress b)]\<rparr>"
  have st': "st' = st\<lparr>arrays := arr', events := events st @ [Stored arr']\<rparr>" and r: "r = None"
    using assms(1) True by (auto simp: end_batch_def Let_def off_def arr'_def)
  have g: "good m n (arrays st)" using assms(2) by (simp add: ingest_inv_def)
  have offn: "off < n" using True g by (simp add: good_def off_def)
  have "good m n arr'"
    unfolding good_def
  proof (intro conjI impI allI)
    show "length (writtenRow arr') = n" "length (writtenFraction arr') = n"
      "length (pkFlushedRow arr') = n" "length (idxFlushedRow arr') = n"
      using g by (simp_all add: arr'_def good_def)
  next
    fix j
    assume m: m and j: "j < n"
    have le: "writtenRow (arrays st) ! off \<le> LastRow b"
      using assms(3) m offn by (simp add: off_def)
    have old: "pkFlushedRow (arrays st) ! j \<le> writtenRow (arrays st) ! j"
      "idxFlushedRow (arrays st) ! j \<le> writtenRow (arrays st) ! j"
      using g m j by (simp_all add: good_def)
    have w: "writtenRow (arrays st) ! j \<le> writtenRow arr' ! j"
      using le j g by (cases "j = off") (simp_all add: arr'_def good_def)
    show "pkFlushedRow arr' ! j \<le> writtenRow arr' ! j"
      using old(1) w by (simp add: arr'_def)
    show "idxFlushedRow arr' ! j \<le> writtenRow arr' ! j"
      using old(2) w by (simp add: arr'_def)
  qed
  then have "ingest_inv m n st'" using assms(2) st' by (auto simp: ingest_inv_def all_good_def)
  then show ?thesis using st' r by (simp add: arr'_def off_def)
qed

lemma ingest_batches_inv:
  assumes "ingest_batches deps offsets st kvCh = (r, st')" "ingest_inv m n st"
    and "m \<longrightarrow> rows_nondecreasing offsets (writtenRow (arrays st)) kvCh"
  shows "ingest_inv m n st'"
  using assms
proof (induction kvCh arbitrary: st)
  case Nil
  then show ?case by simp
next
  case (Cons b rest)
  obtain r1 st1 where k: "ingest_kvs deps st (KVs b) = (r1, st1)"
    by (cases "ingest_kvs deps st (KVs b)")
  have o1: "ingest_inv m n st1" and w1: "writtenRow (arrays st1) = writtenRow (arrays st)"
    using ingest_kvs_inv[OF k Cons.prems(2)] by simp_all
  show ?case
  proof (cases r1)
    case (Some e)
    then have "st' = st1" using Cons.prems(1) k by simp
    then show ?thesis using o1 by simp
  next
    case None
    obtain r2 st2 where e: "end_batch offsets b st1 = (r2, st2)"
      by (cases "end_batch offsets b st1")
    have len: "length (writtenRow (arrays st)) = n"
      using Cons.prems(2) by (simp add: ingest_inv_def good_def)
    have le: "m \<longrightarrow> offset_of offsets (Source b) < n \<longrightarrow>
           writtenRow (arrays st1) ! offset_of offsets (Source b) \<le> LastRow b"
      using Cons.prems(3) w1 len by (simp add: Let_def)
    have o2: "ingest_inv m n st2"
      and w2: "r2 = None \<longrightarrow> writtenRow (arrays st2)
             = (writtenRow (arrays st1))[offset_of offsets (Source b) := LastRow b]"
      using end_batch_inv[OF e o1 le] by simp_all
    show ?thesis
    proof (cases r2)
      case (Some e2)
      then have "st' = st2" using Cons.prems(1) k None e by simp
      then show ?thesis using o2 by simp
    next
      case None2: None
      then have l: "ingest_batches deps offsets st2 rest = (r, st')"
        using Cons.prems(1) k None e by simp
      have "m \<longrightarrow> rows_nondecreasing offsets (writtenRow (arrays st2)) rest"
        using Cons.prems(3) w2 None2 w1 by (simp add: Let_def)
      then show ?thesis using Cons.IH[OF l o2] by simp
    qed
  qed
qed

lemma flush_adders_good:
  assumes "flush_adders deps st = (res, evs)" "ingest_inv m n st"
  shows "all_good m n evs"
proof -
  obtain a fl err where f1: "Flush (pkOps deps) (pkIndexAdder st) = (a, fl, err)"
    by (cases "Flush (pkOps deps) (pkIndexAdder st)")
  obtain r1 st1 where a1: "adder_returned deps PkAdder fl err (st\<lparr>pkIndexAdder := a\<rparr>) = (r1, st1)"
    by (cases "adder_returned deps PkAdder fl err (st\<lparr>pkIndexAdder := a\<rparr>)")
  have "ingest_inv m n (st\<lparr>pkIndexAdder := a\<rparr>)" using assms(2) by (simp add: ingest_inv_def)
  then have o1: "ingest_inv m n st1" using adder_returned_inv[OF a1] by simp
  show ?thesis
  proof (cases r1)
    case (Some e)
    then have "evs = events st1" using assms(1) f1 a1 by (simp add: flush_adders_def)
    then show ?thesis using o1 by (simp add: ingest_inv_def)
  next
    case None
    obtain b fl' err' where f2: "Flush (idxOps deps) (indexAdder st1) = (b, fl', err')"
      by (cases "Flush (idxOps deps) (indexAdder st1)")
    obtain r2 st2 where a2: "adder_returned deps IdxAdder fl' err' (st1\<lparr>indexAdder := b\<rparr>) = (r2, st2)"
      by (cases "adder_returned deps IdxAdder fl' err' (st1\<lparr>indexAdder := b\<rparr>)")
    have "ingest_inv m n (st1\<lparr>indexAdder := b\<rparr>)" using o1 by (simp add: ingest_inv_def)
    then have o2: "ingest_inv m n st2" using adder_returned_inv[OF a2] by simp
    have "evs = events st2"
      using assms(1) f1 a1 None f2 a2 by (auto simp: flush_adders_def split: option.splits)
    then show ?thesis using o2 by (simp add: ingest_inv_def)
  qed
qed

lemma ingestKvs_good:
  assumes "m \<longrightarrow> rows_nondecreasing (mk_offsets files 0) (replicate (length files) 0) kvCh"
  shows "all_good m (length files) (snd (ingestKvs deps reporter files kvCh))"
proof (cases "NewPkAdder deps")
  case (Inl e)
  then show ?thesis by (simp add: ingestKvs_def all_good_def)
next
  case a: (Inr a)
  show ?thesis
  proof (cases "NewIndexAdder deps")
    case (Inl e)
    then show ?thesis using a by (simp add: ingestKvs_def all_good_def)
  next
    case b: (Inr b)
    define arr where "arr = \<lparr>writtenRow = replicate (length files) 0,
        writtenFraction = replicate (length files) 0,
        pkFlushedRow = replicate (length files) 0,
        idxFlushedRow = replicate (length files) 0\<rparr>"
    define st where "st = \<lparr>pkIndexAdder = a, indexAdder = b, arrays = arr, events = [Stored arr]\<rparr>"
    obtain r st' where l: "ingest_batches deps (mk_offsets files 0) st kvCh = (r, st')"
      by (cases "ingest_batches deps (mk_offsets files 0) st kvCh")
    have "good m (length files) arr" by (simp add: arr_def good_def)
    then have i: "ingest_inv m (length files) st" by (simp add: st_def ingest_inv_def all_good_def)
    have "m \<longrightarrow> rows_nondecreasing (mk_offsets files 0) (writtenRow (arrays st)) kvCh"
      using assms by (simp add: st_def arr_def)
    then have o: "ingest_inv m (length files) st'" using ingest_batches_inv[OF l i] by simp
    have run: "ingestKvs deps reporter files kvCh
        = (case g_Wait reporter r of
              Some err \<Rightarrow> (Inl err, events st') | None \<Rightarrow> flush_adders deps st')"
      using a b l by (simp add: ingestKvs_def Let_def arr_def st_def)
    show ?thesis
    proof (cases "g_Wait reporter r")
      case (Some e)
      then show ?thesis using run o by (simp add: ingest_inv_def)
    next
      case None
      then have "flush_adders deps st' = (fst (ingestKvs deps reporter files kvCh), snd (ingestKvs deps reporter files kvCh))"
        using run by simp
      then show ?thesis using flush_adders_good o by blast
    qed
  qed
qed

subsection \<open>The reporter\<close>

lemma mk_offsets_fst: "map fst (mk_offsets files k) = files"
  by (induction files arbitrary: k) simp_all

lemma mk_offsets_range:
  "(f, off) \<in> set (mk_offsets files k) \<Longrightarrow> k \<le> off \<and> off < k + length files"
proof (induction files arbitrary: k)
  case Nil
  then show ?case by simp
next
  case (Cons i files)
  then show ?case by fastforce
qed

lemma offset_of_mk_offsets:
  assumes "distinct files" "file \<in> set files"
  shows "(file, offset_of (mk_offsets files k) file) \<in> set (mk_offsets files k)"
proof -
  have "file \<in> fst ` set (mk_offsets files k)"
    using assms(2) mk_offsets_fst[of files k] by (metis set_map)
  then obtain off where m: "map_of (mk_offsets files k) file = Some off"
    by (metis map_of_eq_None_iff not_Some_eq)
  then have "(file, off) \<in> set (mk_offsets files k)" by (rule map_of_SomeD)
  then show ?thesis using m by (simp add: offset_of_def)
qed

lemma report_files_good:
  assumes "\<forall>(f, off) \<in> set offs. off < n" "distinct (map fst offs)" "good False n arr"
  shows "\<exists>prog'. report_files offs arr prog = Inr prog'
      \<and> (\<forall>f off. (f, off) \<in> set offs \<longrightarrow>
            CompletedRow prog' f = Some (min (pkFlushedRow arr ! off) (idxFlushedRow arr ! off))
            \<and> CompletedFraction prog' f = Some (Float32frombits (writtenFraction arr ! off)))
      \<and> (\<forall>f. f \<notin> fst ` set offs \<longrightarrow>
            CompletedRow prog' f = CompletedRow prog f
            \<and> CompletedFraction prog' f = CompletedFraction prog f)"
  using assms(1,2)
proof (induction offs arbitrary: prog)
  case Nil
  then show ?case by simp
next
  case (Cons fo rest)
  obtain f0 o0 where fo: "fo = (f0, o0)" by (cases fo)
  have o0: "o0 < n" using Cons.prems(1) fo by simp
  have len: "o0 < length (pkFlushedRow arr)" "o0 < length (idxFlushedRow arr)"
    "o0 < length (writtenFraction arr)"
    using o0 assms(3) by (simp_all add: good_def)
  define prog2 where "prog2 = prog\<lparr>CompletedRow := (CompletedRow prog)(f0 \<mapsto>
        (if idxFlushedRow arr ! o0 > pkFlushedRow arr ! o0
         then pkFlushedRow arr ! o0 else idxFlushedRow arr ! o0)),
      CompletedFraction := (CompletedFraction prog)(f0 \<mapsto>
        Float32frombits (writtenFraction arr ! o0))\<rparr>"
  have step: "report_files (fo # rest) arr prog = report_files rest arr prog2"
    using len fo by (simp add: prog2_def Let_def)
  have r1: "\<forall>(f, off) \<in> set rest. off < n" using Cons.prems(1) by simp
  have r2: "distinct (map fst rest)" using Cons.prems(2) by simp
  obtain prog' where p: "report_files rest arr prog2 = Inr prog'"
    and inn: "\<forall>f off. (f, off) \<in> set rest \<longrightarrow>
            CompletedRow prog' f = Some (min (pkFlushedRow arr ! off) (idxFlushedRow arr ! off))
            \<and> CompletedFraction prog' f = Some (Float32frombits (writtenFraction arr ! off))"
    and out: "\<forall>f. f \<notin> fst ` set rest \<longrightarrow>
            CompletedRow prog' f = CompletedRow prog2 f
            \<and> CompletedFraction prog' f = CompletedFraction prog2 f"
    using Cons.IH[OF r1 r2, of prog2] by blast
  have f0: "f0 \<notin> fst ` set rest" using Cons.prems(2) fo by simp
  have m: "(if idxFlushedRow arr ! o0 > pkFlushedRow arr ! o0
         then pkFlushedRow arr ! o0 else idxFlushedRow arr ! o0)
        = min (pkFlushedRow arr ! o0) (idxFlushedRow arr ! o0)"
    by (auto simp: min_def)
  have here: "CompletedRow prog' f0 = Some (min (pkFlushedRow arr ! o0) (idxFlushedRow arr ! o0))
      \<and> CompletedFraction prog' f0 = Some (Float32frombits (writtenFraction arr ! o0))"
    using out f0 m by (simp add: prog2_def)
  have other: "\<forall>f. f \<notin> fst ` set (fo # rest) \<longrightarrow>
            CompletedRow prog' f = CompletedRow prog f
            \<and> CompletedFraction prog' f = CompletedFraction prog f"
    using out fo by (simp add: prog2_def)
  have all: "\<forall>f off. (f, off) \<in> set (fo # rest) \<longrightarrow>
            CompletedRow prog' f = Some (min (pkFlushedRow arr ! off) (idxFlushedRow arr ! off))
            \<and> CompletedFraction prog' f = Some (Float32frombits (writtenFraction arr ! off))"
    using inn here fo by auto
  show ?case using step p all other by simp
qed

lemma good_weaken: "good m n arr \<Longrightarrow> good False n arr"
  by (simp add: good_def)

text \<open>
  C5, amended. Take any state of the progress slices that a run of \<open>ingestKvs\<close> has
  stored, and any input file. The record that the reporter task builds from that state
  carries, for the file, \<open>CompletedRow\<close> equal to the minimum of \<open>pkFlushedRow\<close> and
  \<open>idxFlushedRow\<close> at the file's slot and \<open>CompletedFraction\<close> equal to the float
  decoded from \<open>writtenFraction\<close> at that slot. If the \<open>LastRow\<close> values of successive
  batches of each file never decrease, that \<open>CompletedRow\<close> is at most \<open>writtenRow\<close>
  at the slot in that state.
\<close>

theorem reporter_progress:
  assumes "Stored arr \<in> set (snd (ingestKvs deps reporter files kvCh))"
    and "distinct files" and "file \<in> set files"
  shows "\<exists>prog. report (mk_offsets files 0) arr = Inr prog
      \<and> CompletedRow prog file
          = Some (min (pkFlushedRow arr ! offset_of (mk_offsets files 0) file)
                      (idxFlushedRow arr ! offset_of (mk_offsets files 0) file))
      \<and> CompletedFraction prog file
          = Some (Float32frombits (writtenFraction arr ! offset_of (mk_offsets files 0) file))
      \<and> (rows_nondecreasing (mk_offsets files 0) (replicate (length files) 0) kvCh \<longrightarrow>
           (\<forall>c. CompletedRow prog file = Some c \<longrightarrow>
                 c \<le> writtenRow arr ! offset_of (mk_offsets files 0) file))"
proof -
  define off where "off = offset_of (mk_offsets files 0) file"
  have mem: "(file, off) \<in> set (mk_offsets files 0)"
    unfolding off_def using assms(2,3) by (rule offset_of_mk_offsets)
  then have offn: "off < length files" using mk_offsets_range[OF mem] by simp
  have g: "good False (length files) arr"
    using ingestKvs_good[where m = False and files = files and kvCh = kvCh and deps = deps
        and reporter = reporter] assms(1) by (simp add: all_good_def)
  have rng: "\<forall>(f, off) \<in> set (mk_offsets files 0). off < length files"
    using mk_offsets_range by fastforce
  have d: "distinct (map fst (mk_offsets files 0))"
    using assms(2) by (simp add: mk_offsets_fst)
  obtain prog where p: "report (mk_offsets files 0) arr = Inr prog"
    and v: "\<forall>f off. (f, off) \<in> set (mk_offsets files 0) \<longrightarrow>
            CompletedRow prog f = Some (min (pkFlushedRow arr ! off) (idxFlushedRow arr ! off))
            \<and> CompletedFraction prog f = Some (Float32frombits (writtenFraction arr ! off))"
    using report_files_good[OF rng d g] unfolding report_def by blast
  have cr: "CompletedRow prog file = Some (min (pkFlushedRow arr ! off) (idxFlushedRow arr ! off))"
    and cf: "CompletedFraction prog file = Some (Float32frombits (writtenFraction arr ! off))"
    using v mem by blast+
  have le: "rows_nondecreasing (mk_offsets files 0) (replicate (length files) 0) kvCh \<longrightarrow>
           (\<forall>c. CompletedRow prog file = Some c \<longrightarrow> c \<le> writtenRow arr ! off)"
  proof (intro impI allI)
    fix c
    assume mono: "rows_nondecreasing (mk_offsets files 0) (replicate (length files) 0) kvCh"
      and c: "CompletedRow prog file = Some c"
    have "good True (length files) arr"
      using ingestKvs_good[where m = True and files = files and kvCh = kvCh and deps = deps
        and reporter = reporter] mono assms(1) by (simp add: all_good_def)
    then have "pkFlushedRow arr ! off \<le> writtenRow arr ! off"
      using offn by (simp add: good_def)
    then have "min (pkFlushedRow arr ! off) (idxFlushedRow arr ! off) \<le> writtenRow arr ! off"
      by (simp add: min_le_iff_disj)
    then show "c \<le> writtenRow arr ! off" using c cr by simp
  qed
  show ?thesis using p cr cf le unfolding off_def by blast
qed

text \<open>
  C5, as stated, fails when a batch carries a smaller \<open>LastRow\<close> than an earlier batch
  of the same file: over two files, after a batch of file 1 with \<open>LastRow = 1\<close>, a
  flush of the PK adder and a batch of file 1 with \<open>LastRow = 0\<close>, the reporter sends
  \<open>CompletedRow = 1\<close> for file 1 while \<open>writtenRow\<close> is 0 at its slot.
\<close>

theorem reporter_progress_counterexample:
  "Stored \<lparr>writtenRow = [0, 0], writtenFraction = [0, 0],
           pkFlushedRow = [0, 1], idxFlushedRow = [0, 1]\<rparr>
     \<in> set (snd (ingestKvs (ex_ingest 1) StopProgress [0, 1]
          [\<lparr>Source = 1, LastRow = 1, Progress = 0, KVs = [\<lparr>Key = ''51a'', RawBytes = ''x''\<rparr>]\<rparr>,
           \<lparr>Source = 1, LastRow = 0, Progress = 0, KVs = [\<lparr>Key = ''51b'', RawBytes = ''y''\<rparr>]\<rparr>]))
   \<and> reported_row (mk_offsets [0, 1] 0)
        \<lparr>writtenRow = [0, 0], writtenFraction = [0, 0],
         pkFlushedRow = [0, 1], idxFlushedRow = [0, 1]\<rparr> 1 = Some 1
   \<and> writtenRow \<lparr>writtenRow = [0, 0], writtenFraction = [0, 0],
                  pkFlushedRow = [0, 1], idxFlushedRow = [0, 1]\<rparr>
        ! offset_of (mk_offsets [0, 1] 0) 1 = 0
   \<and> \<not> (1 :: 64 word) \<le> 0"
  by (simp add: ingest_eval reported_row_def report_def Float32frombits_def)

text \<open>The state after a batch of file 1 with \<open>LastRow = 1\<close> and the final flushes.\<close>

theorem reporter_progress_witness:
  "Stored \<lparr>writtenRow = [0, 1], writtenFraction = [0, 0],
           pkFlushedRow = [0, 1], idxFlushedRow = [0, 1]\<rparr>
     \<in> set (snd (ingestKvs (ex_ingest 10) StopProgress [0, 1]
          [\<lparr>Source = 1, LastRow = 1, Progress = 0, KVs = [\<lparr>Key = ''51a'', RawBytes = ''x''\<rparr>]\<rparr>]))
   \<and> rows_nondecreasing (mk_offsets [0, 1] 0) (replicate (length [0 :: 32 word, 1]) 0)
          [\<lparr>Source = 1, LastRow = 1, Progress = 0, KVs = [\<lparr>Key = ''51a'', RawBytes = ''x''\<rparr>]\<rparr>]
   \<and> reported_row (mk_offsets [0, 1] 0)
        \<lparr>writtenRow = [0, 1], writtenFraction = [0, 0],
         pkFlushedRow = [0, 1], idxFlushedRow = [0, 1]\<rparr> 1 = Some 1
   \<and> (1 :: 64 word) \<le> writtenRow \<lparr>writtenRow = [0, 1], writtenFraction = [0, 0],
                  pkFlushedRow = [0, 1], idxFlushedRow = [0, 1]\<rparr>
        ! offset_of (mk_offsets [0, 1] 0) 1"
proof -
  let ?arr = "\<lparr>writtenRow = [0, 1], writtenFraction = [0, 0],
           pkFlushedRow = [0, 1], idxFlushedRow = [0, 1 :: 64 word]\<rparr>"
  let ?ch = "[\<lparr>Source = 1, LastRow = 1, Progress = 0, KVs = [\<lparr>Key = ''51a'', RawBytes = ''x''\<rparr>]\<rparr>]"
  have m: "Stored ?arr \<in> set (snd (ingestKvs (ex_ingest 10) StopProgress [0, 1] ?ch))"
    by (simp add: ingest_eval)
  have d: "distinct [0 :: 32 word, 1]" by simp
  have f: "(1 :: 32 word) \<in> set [0, 1]" by simp
  have mono: "rows_nondecreasing (mk_offsets [0, 1] 0) (replicate (length [0 :: 32 word, 1]) 0) ?ch"
    by (simp add: offset_of_def)
  obtain prog where p: "report (mk_offsets [0, 1] 0) ?arr = Inr prog"
    and c: "CompletedRow prog 1
          = Some (min (pkFlushedRow ?arr ! offset_of (mk_offsets [0, 1] 0) 1)
                      (idxFlushedRow ?arr ! offset_of (mk_offsets [0, 1] 0) 1))"
    and le: "rows_nondecreasing (mk_offsets [0, 1] 0) (replicate (length [0 :: 32 word, 1]) 0) ?ch \<longrightarrow>
           (\<forall>c. CompletedRow prog 1 = Some c \<longrightarrow>
                 c \<le> writtenRow ?arr ! offset_of (mk_offsets [0, 1] 0) 1)"
    using reporter_progress[OF m d f] by blast
  have r: "reported_row (mk_offsets [0, 1] 0) ?arr 1 = Some 1"
    using p c by (simp add: reported_row_def offset_of_def)
  then have "CompletedRow prog 1 = Some 1" using p by (simp add: reported_row_def)
  then have "(1 :: 64 word) \<le> writtenRow ?arr ! offset_of (mk_offsets [0, 1] 0) 1"
    using le mono by blast
  then show ?thesis using m mono r by blast
qed

section \<open>The ingestor: the flush hooks\<close>

text \<open>
  C1 does not hold of the code: the flush hooks use each value of \<open>writtenRow\<close> as the
  index of the slot to copy. With \<open>writtenRow = [1, 2, 1]\<close> the hooks copy slots 1 and
  2 and leave slot 0 as it was, where the claim has the flushed rows equal to
  \<open>[1, 2, 1]\<close>; with one file and \<open>writtenRow = [5]\<close> the index 5 is out of range
  and the hooks panic. Both states arise in runs of \<open>ingestKvs\<close>.
\<close>

theorem flush_hooks_index_by_value:
  "pkOnFlush True \<lparr>writtenRow = [1, 2, 1], writtenFraction = [0, 0, 0],
                   pkFlushedRow = [0, 0, 0], idxFlushedRow = [0, 0, 0]\<rparr>
     = Inr \<lparr>writtenRow = [1, 2, 1], writtenFraction = [0, 0, 0],
            pkFlushedRow = [0, 2, 1], idxFlushedRow = [0, 2, 1]\<rparr>
   \<and> idxOnFlush \<lparr>writtenRow = [1, 2, 1], writtenFraction = [0, 0, 0],
                  pkFlushedRow = [0, 0, 0], idxFlushedRow = [0, 0, 0]\<rparr>
     = Inr \<lparr>writtenRow = [1, 2, 1], writtenFraction = [0, 0, 0],
            pkFlushedRow = [0, 0, 0], idxFlushedRow = [0, 2, 1]\<rparr>
   \<and> pkOnFlush True \<lparr>writtenRow = [5], writtenFraction = [0],
                     pkFlushedRow = [0], idxFlushedRow = [0]\<rparr>
     = Inl (Panic ''index out of range'')
   \<and> idxOnFlush \<lparr>writtenRow = [5], writtenFraction = [0],
                  pkFlushedRow = [0], idxFlushedRow = [0]\<rparr>
     = Inl (Panic ''index out of range'')
   \<and> fst (ingestKvs (ex_ingest 10) StopProgress [0]
          [\<lparr>Source = 0, LastRow = 5, Progress = 0, KVs = [\<lparr>Key = ''51a'', RawBytes = ''x''\<rparr>]\<rparr>])
     = Inl (Panic ''index out of range'')
   \<and> last (snd (ingestKvs (ex_ingest 10) StopProgress [0, 1, 2]
          [\<lparr>Source = 0, LastRow = 1, Progress = 0, KVs = [\<lparr>Key = ''51a'', RawBytes = ''x''\<rparr>]\<rparr>,
           \<lparr>Source = 1, LastRow = 2, Progress = 0, KVs = [\<lparr>Key = ''51b'', RawBytes = ''x''\<rparr>]\<rparr>,
           \<lparr>Source = 2, LastRow = 1, Progress = 0, KVs = [\<lparr>Key = ''52c'', RawBytes = ''x''\<rparr>]\<rparr>]))
     = Stored \<lparr>writtenRow = [1, 2, 1], writtenFraction = [0, 0, 0],
               pkFlushedRow = [0, 2, 1], idxFlushedRow = [0, 2, 1]\<rparr>"
  by (simp add: ingest_eval)

section \<open>Saving rejected rows: properties\<close>

lemma receive_rejected_eq:
  "receive_rejected rejected (buf, atFirstLine)
     = (buf @ concat rejected, atFirstLine \<and> rejected = [])"
  by (induction rejected arbitrary: buf atFirstLine) simp_all

text \<open>Whatever the URI parses to, the file written is the one the source URI names.\<close>

lemma save_rejected_target:
  assumes "save_rejected deps dataFile rejected = (r, written)"
    and "(conf, basename, content) \<in> set written"
  shows "ExportStorageConfFromURI deps dataFile = Inr conf \<and> basename = []
       \<and> content = concat rejected \<and> rejected \<noteq> []"
  using assms
  by (auto simp: save_rejected_def receive_rejected_eq Let_def
           split: if_splits sum.splits option.splits)

lemma save_rejected_none:
  "save_rejected deps dataFile [] = (None, [])"
  by (simp add: save_rejected_def)

text \<open>
  C2 does not hold of the code: the task computes the URI with \<open>.rejected\<close> appended
  to its path and then opens the storage of the source URI itself. For a MySQL-outfile
  import with \<open>SaveRejected\<close> whose parser rejects two rows of
  \<open>nodelocal:///1/data.tsv\<close>, the rows are written at \<open>nodelocal:///1/data.tsv\<close>,
  not at \<open>nodelocal:///1/data.tsv.rejected\<close>. Without rejected rows nothing is written.
\<close>

theorem rejected_rows_overwrite_source:
  "read_file_rejected ex_storage
      \<lparr>Format = IOFileFormat_MysqlOutfile, MysqlOut = \<lparr>SaveRejected = True\<rparr>,
       Compression = IOFileFormat_Auto\<rparr>
      (ex_fileFunc [''bad row 1;'', ''bad row 2;''])
      ''nodelocal:///1/data.tsv''
     = (None, [(''nodelocal:///1/data.tsv'', [], ''bad row 1;bad row 2;'')])
   \<and> ''nodelocal:///1/data.tsv'' \<noteq> ''nodelocal:///1/data.tsv.rejected''
   \<and> read_file_rejected ex_storage
      \<lparr>Format = IOFileFormat_MysqlOutfile, MysqlOut = \<lparr>SaveRejected = True\<rparr>,
       Compression = IOFileFormat_Auto\<rparr>
      (ex_fileFunc [])
      ''nodelocal:///1/data.tsv''
     = (None, [])"
  by (simp add: read_file_rejected_def save_rejected_def ex_storage_def ex_Parse_def
        ex_fileFunc_def)

end
